theory Spec2Isabelle
  imports Main "HOL-Library.Sublist"
begin

text \<open>
  A model of \<open>src/hot.dev.js\<close>, the development build of \<open>hot\<close>: the registration of a
  module, the function that wraps its exports, the lifecycle of the exported class, and
  the update of mounted instances when the host reports a change. The program runs on the
  event loop of a browser; the model makes the loop explicit. A state holds the
  generation counter, the instance registry, the pending timers, the two task queues, the
  promise continuations and microtasks, and the trace of the effects that leave the file.
  Closures are data: a callback is named by the function it comes from and the variables
  it captures. The collaborators that \<open>hot.dev.js\<close> imports are not part of the file; each is
  modelled where it is used, from what the specification says about it.
\<close>

section \<open>Values, modules and components\<close>

text \<open>
  The JavaScript values that reach \<open>hot.dev.js\<close> from outside: the payload of the host's
  accept callback (\<open>possibleError\<close>), the fields \<open>id\<close>, \<open>i\<close> and \<open>filename\<close> of a module
  object, and what a failing \<open>require\<close> throws. \<open>JError\<close> is an object whose prototype
  chain holds \<open>Error.prototype\<close>; \<open>JObject\<close> is any other object.
\<close>

datatype js_value =
    JUndefined
  | JNull
  | JBool bool
  | JNum int
  | JStr string
  | JError string
  | JObject string

text \<open>JavaScript truthiness: what \<open>if (v)\<close>, \<open>!v\<close>, \<open>a && b\<close> and \<open>a || b\<close> test.\<close>

fun truthy :: "js_value \<Rightarrow> bool" where
  "truthy JUndefined = False"
| "truthy JNull = False"
| "truthy (JBool b) = b"
| "truthy (JNum n) = (n \<noteq> 0)"
| "truthy (JStr s) = (s \<noteq> [])"
| "truthy (JError m) = True"
| "truthy (JObject d) = True"

text \<open>\<open>v instanceof Error\<close>.\<close>

fun instanceofError :: "js_value \<Rightarrow> bool" where
  "instanceofError (JError m) = True"
| "instanceofError v = False"

text \<open>\<open>a || b\<close>: the first operand when it is truthy, the second otherwise.\<close>

definition js_or :: "js_value \<Rightarrow> js_value \<Rightarrow> js_value" where
  "js_or a b = (if truthy a then a else b)"

text \<open>Conversion to a string, as a template literal \<open>`${v}`\<close> does it.\<close>

definition digit_char :: "nat \<Rightarrow> char" where
  "digit_char d = char_of (48 + d)"

fun show_nat :: "nat \<Rightarrow> string" where
  "show_nat n = (if n < 10 then [digit_char n] else show_nat (n div 10) @ [digit_char (n mod 10)])"

declare show_nat.simps [simp del]

definition show_int :: "int \<Rightarrow> string" where
  "show_int i = (if i < 0 then CHR ''-'' # show_nat (nat (- i)) else show_nat (nat i))"

fun js_toString :: "js_value \<Rightarrow> string" where
  "js_toString JUndefined = ''undefined''"
| "js_toString JNull = ''null''"
| "js_toString (JBool b) = (if b then ''true'' else ''false'')"
| "js_toString (JNum n) = show_int n"
| "js_toString (JStr s) = s"
| "js_toString (JError m) = (if m = [] then ''Error'' else ''Error: '' @ m)"
| "js_toString (JObject d) = ''[object Object]''"

text \<open>
  The host's hot-update API of one module object, \<open>sourceModule.hot\<close>: what \<open>status()\<close>
  returns when it is asked, and whether \<open>addStatusHandler\<close> is there (webpack has it, Parcel
  does not). \<open>accept\<close> is always there.
\<close>

record hot_api =
  hot_status :: string
  has_addStatusHandler :: bool

text \<open>A module object as the bundler hands it to \<open>hot\<close>; \<open>mod_hot = None\<close> is a missing
  (falsy) \<open>hot\<close> field.\<close>

record source_module =
  mod_id :: js_value
  mod_i :: js_value
  mod_filename :: js_value
  mod_hot :: "hot_api option"

text \<open>
  Modelled from the spec: \<open>getComponentDisplayName\<close> of \<open>internal/reactUtils\<close> is an external
  collaborator (display-name derivation); a component is taken with the name it derives.
\<close>

record component =
  comp_name :: string

definition getComponentDisplayName :: "component \<Rightarrow> string" where
  "getComponentDisplayName c = comp_name c"

type_synonym props = "(string \<times> js_value) list"

section \<open>Effects and closures\<close>

text \<open>
  Every call that leaves \<open>hot.dev.js\<close> for a collaborator with an effect of its own is
  recorded, in order, in the trace of the state.
\<close>

datatype console_arg = CStr string | CVal js_value | CModule source_module

datatype effect =
    ConsoleError "console_arg list"
  | LoggerError string
  | LoggerWarn string
  | LogException string
  | ClearExceptions
  | EnterHotUpdate
  | RequireIndirect js_value
  | Register component string string
  | ForceUpdate nat

text \<open>
  The closures that \<open>hot.dev.js\<close> hands to timers and promises, with the variables they
  capture:
  \<^item> \<open>FailbackFire id\<close>: the callback of \<open>chargeFailbackTimer id\<close>;
  \<^item> \<open>TailCheck moduleId gen runLimit\<close>: the callback that \<open>checkTailUpdates\<close> gives to
    \<open>setTimeout\<close>; \<open>runLimit\<close> is the value of the shared counter when the timer is set
    (only this chain of timers writes it);
  \<^item> \<open>DeepUpdate moduleId\<close>: \<open>deepUpdate\<close>, as passed to \<open>.then\<close>.
  The tasks given to the two queues are \<open>ReloadTask\<close> (the function with the defensive
  \<open>requireIndirect\<close>) and \<open>RenderTask\<close> (the function inside \<open>deepUpdate\<close>).
\<close>

datatype callback =
    FailbackFire js_value
  | TailCheck js_value nat nat
  | DeepUpdate js_value

datatype task = ReloadTask js_value | RenderTask js_value

datatype qid = RequireQ | RenderQ

section \<open>State\<close>

text \<open>The record that \<open>hotModule\<close> keeps for a module id: \<open>{ instances: [], updateTimeout: 0 }\<close>.
  An instance is the identity of one mounted \<open>ExportedComponent\<close>.\<close>

record module_record =
  instances :: "nat list"
  updateTimeout :: nat

text \<open>
  Modelled from the spec: a task queue of \<open>utils/runQueue\<close> holds an ordered sequence of
  pending tasks, each with the handle that resolves when it has run, and an in-flight flag.
\<close>

record queue =
  pending :: "(task \<times> nat) list"
  inFlight :: bool

text \<open>The variables that one call of \<open>hot\<close> leaves to the function it returns.\<close>

record hot_closure =
  cl_source :: source_module
  cl_moduleId :: js_value
  cl_failbackTimer :: nat
  firstHotRegistered :: bool

text \<open>The class \<open>ExportedComponent\<close> that one call of the returned function creates, after
  \<open>createHoc\<close>.\<close>

record hoc =
  hoc_source :: source_module
  hoc_moduleId :: js_value
  hoc_wrapped :: component
  hoc_props :: props
  displayName :: string

text \<open>
  What the host and the configuration answer when they are asked: \<open>configuration.trackTailUpdates\<close>,
  whether \<open>ReactDOM.unstable_batchedUpdates\<close> exists, what \<open>requireIndirect\<close> throws for a module
  id (\<open>None\<close>: it returns), \<open>isOpened\<close> and \<open>getLastModuleOpened\<close> of \<open>global/modules\<close>.
\<close>

record host =
  trackTailUpdates :: bool
  has_batchedUpdates :: bool
  requireThrows :: "js_value \<Rightarrow> js_value option"
  moduleOpened :: "source_module \<Rightarrow> bool"
  lastModuleOpened :: js_value

record state =
  generation :: nat
  hotModules :: "js_value \<rightharpoonup> module_record"
  trace :: "effect list"
  now :: nat
  timers :: "(nat \<times> nat \<times> callback) list"
  nextTimerId :: nat
  queues :: "qid \<Rightarrow> queue"
  settled :: "nat list"
  thens :: "(nat \<times> callback) list"
  nextHandle :: nat
  microtasks :: "callback list"
  closures :: "hot_closure list"
  acceptHandlers :: "js_value list"
  statusHandlers :: "js_value list"
  nextInstance :: nat
  dispatched :: "(nat \<times> callback \<times> nat) list"
  env :: host

text \<open>The instances that a trace force-updates, in order.\<close>

fun forceUpdated :: "effect list \<Rightarrow> nat list" where
  "forceUpdated [] = []"
| "forceUpdated (ForceUpdate inst # es) = inst # forceUpdated es"
| "forceUpdated (e # es) = forceUpdated es"

section \<open>Collaborators\<close>

definition emit :: "effect \<Rightarrow> state \<Rightarrow> state" where
  "emit e s = s\<lparr>trace := trace s @ [e]\<rparr>"

definition consoleError :: "console_arg list \<Rightarrow> state \<Rightarrow> state" where
  "consoleError args = emit (ConsoleError args)"

definition loggerError :: "string \<Rightarrow> state \<Rightarrow> state" where
  "loggerError m = emit (LoggerError m)"

definition loggerWarn :: "string \<Rightarrow> state \<Rightarrow> state" where
  "loggerWarn m = emit (LoggerWarn m)"

text \<open>
  Modelled from the spec: \<open>logException\<close> and \<open>clearExceptions\<close> of \<open>errorReporter\<close> are the
  exception-report sink and the clearing of its pending state; both are recorded as effects.
  \<open>logException\<close> receives an object whose \<open>toString\<close> gives the message.
\<close>

definition logException :: "string \<Rightarrow> state \<Rightarrow> state" where
  "logException m = emit (LogException m)"

definition clearExceptions :: "state \<Rightarrow> state" where
  "clearExceptions = emit ClearExceptions"

text \<open>
  Modelled from the spec: the generation tracker of \<open>global/generation\<close>. \<open>enterHotUpdate\<close>
  increments the process-wide counter and returns nothing; \<open>getHotGeneration\<close> reads it.
  The call of \<open>enterHotUpdate\<close> is recorded, so that the trace shows where it falls among the
  force-updates.
\<close>

definition enterHotUpdate :: "state \<Rightarrow> state" where
  "enterHotUpdate s = emit EnterHotUpdate (s\<lparr>generation := Suc (generation s)\<rparr>)"

definition getHotGeneration :: "state \<Rightarrow> nat" where
  "getHotGeneration s = generation s"

text \<open>
  Modelled from the spec: the instance registry of \<open>global/modules\<close>. \<open>hotModule id\<close> returns
  the record kept for \<open>id\<close> and creates it, empty, on first access; \<open>moduleRecord\<close> is the record
  a closure holds after that call. \<open>isOpened\<close> and \<open>getLastModuleOpened\<close> ask the host.
\<close>

definition hotModule :: "js_value \<Rightarrow> state \<Rightarrow> state" where
  "hotModule moduleId s =
     (case hotModules s moduleId of
        Some r \<Rightarrow> s
      | None \<Rightarrow> s\<lparr>hotModules := (hotModules s)(moduleId \<mapsto> \<lparr>instances = [], updateTimeout = 0\<rparr>)\<rparr>)"

definition moduleRecord :: "state \<Rightarrow> js_value \<Rightarrow> module_record" where
  "moduleRecord s moduleId =
     (case hotModules s moduleId of
        Some r \<Rightarrow> r
      | None \<Rightarrow> \<lparr>instances = [], updateTimeout = 0\<rparr>)"

definition setInstances :: "js_value \<Rightarrow> nat list \<Rightarrow> state \<Rightarrow> state" where
  "setInstances moduleId xs s =
     s\<lparr>hotModules := (hotModules s)(moduleId \<mapsto> (moduleRecord s moduleId)\<lparr>instances := xs\<rparr>)\<rparr>"

definition isModuleOpened :: "source_module \<Rightarrow> state \<Rightarrow> bool" where
  "isModuleOpened sourceModule s = moduleOpened (env s) sourceModule"

definition getLastModuleOpened :: "state \<Rightarrow> js_value" where
  "getLastModuleOpened s = lastModuleOpened (env s)"

text \<open>
  \<open>setTimeout\<close> and \<open>clearTimeout\<close> of the event loop. A pending timer is its id, the time
  from which it may fire, and its callback. Clearing an id that is not pending does nothing.
\<close>

definition setTimeout :: "callback \<Rightarrow> nat \<Rightarrow> state \<Rightarrow> nat \<times> state" where
  "setTimeout cb delay s =
     (nextTimerId s,
      s\<lparr>timers := timers s @ [(nextTimerId s, now s + delay, cb)],
        nextTimerId := Suc (nextTimerId s)\<rparr>)"

definition clearTimeout :: "nat \<Rightarrow> state \<Rightarrow> state" where
  "clearTimeout timerId s = s\<lparr>timers := filter (\<lambda>t. fst t \<noteq> timerId) (timers s)\<rparr>"

text \<open>
  \<open>requireIndirect\<close> is the bundler's \<open>require\<close>: it is recorded, and returns or throws as the
  host decides (\<open>Some e\<close>: it threw \<open>e\<close>). \<open>inst.forceUpdate()\<close> is the UI framework's
  force-re-render primitive of a mounted instance: it is recorded.
\<close>

definition requireIndirect :: "js_value \<Rightarrow> state \<Rightarrow> js_value option \<times> state" where
  "requireIndirect moduleId s = (requireThrows (env s) moduleId, emit (RequireIndirect moduleId) s)"

definition forceUpdate :: "nat \<Rightarrow> state \<Rightarrow> state" where
  "forceUpdate inst = emit (ForceUpdate inst)"

section \<open>The tasks of an update\<close>

text \<open>The function given to \<open>runInRequireQueue\<close>: the defensive re-require in its
  \<open>try\<close>/\<open>catch\<close>.\<close>

definition reloadTask :: "js_value \<Rightarrow> state \<Rightarrow> state" where
  "reloadTask moduleId s =
     (case requireIndirect moduleId s of
        (None, s1) \<Rightarrow> s1
      | (Some e, s1) \<Rightarrow>
          consoleError [CVal e]
            (consoleError [CStr ''React-Hot-Loader: error detected while loading'', CVal moduleId] s1))"

text \<open>\<open>checkTailUpdates\<close>: one \<open>setTimeout\<close> of 16 ms; the callback is \<open>TailCheck\<close>.\<close>

definition checkTailUpdates :: "js_value \<Rightarrow> nat \<Rightarrow> nat \<Rightarrow> state \<Rightarrow> state" where
  "checkTailUpdates moduleId gen runLimit s = snd (setTimeout (TailCheck moduleId gen runLimit) 16 s)"

text \<open>The function given to \<open>runInRenderQueue\<close> inside \<open>deepUpdate\<close>. \<open>forEach\<close> walks the
  array that \<open>module.instances\<close> holds when the task runs.\<close>

definition renderTask :: "js_value \<Rightarrow> state \<Rightarrow> state" where
  "renderTask moduleId s =
     (let s1 = enterHotUpdate s;
          gen = getHotGeneration s1;
          s2 = fold forceUpdate (instances (moduleRecord s1 moduleId)) s1
      in if trackTailUpdates (env s2) then checkTailUpdates moduleId gen 0 s2 else s2)"

fun runTask :: "task \<Rightarrow> state \<Rightarrow> state" where
  "runTask (ReloadTask moduleId) = reloadTask moduleId"
| "runTask (RenderTask moduleId) = renderTask moduleId"

section \<open>Promises and queues\<close>

text \<open>
  A handle is settled once its task has run; \<open>.then\<close> on a settled handle queues the
  continuation as a microtask, on a pending one it keeps the continuation until the handle
  settles.
\<close>

definition settle :: "nat \<Rightarrow> state \<Rightarrow> state" where
  "settle h s =
     s\<lparr>settled := h # settled s,
       microtasks := microtasks s @ map snd (filter (\<lambda>p. fst p = h) (thens s)),
       thens := filter (\<lambda>p. fst p \<noteq> h) (thens s)\<rparr>"

definition then_handle :: "nat \<Rightarrow> callback \<Rightarrow> state \<Rightarrow> state" where
  "then_handle h cb s =
     (if h \<in> set (settled s) then s\<lparr>microtasks := microtasks s @ [cb]\<rparr>
      else s\<lparr>thens := thens s @ [(h, cb)]\<rparr>)"

text \<open>
  Modelled from the spec: \<open>ReactDOM.unstable_batchedUpdates\<close> is the UI framework's
  batching primitive; it calls its argument once, synchronously.
\<close>

definition unstable_batchedUpdates :: "(state \<Rightarrow> state) \<Rightarrow> state \<Rightarrow> state" where
  "unstable_batchedUpdates cb s = cb s"

text \<open>The executor wrapper of each queue: \<open>createQueue()\<close> calls the task directly,
  \<open>createQueue(cb => ...)\<close> of the render queue goes through the batching primitive when
  it exists.\<close>

fun runner :: "qid \<Rightarrow> (state \<Rightarrow> state) \<Rightarrow> state \<Rightarrow> state" where
  "runner RequireQ cb s = cb s"
| "runner RenderQ cb s =
     (if has_batchedUpdates (env s) then unstable_batchedUpdates cb s else cb s)"

definition setQueue :: "qid \<Rightarrow> (task \<times> nat) list \<Rightarrow> bool \<Rightarrow> state \<Rightarrow> state" where
  "setQueue q ps fl s = s\<lparr>queues := (queues s)(q := \<lparr>pending = ps, inFlight = fl\<rparr>)\<rparr>"

lemma queues_emit [simp]: "queues (emit e s) = queues s"
  by (simp add: emit_def)

lemma queues_fold_forceUpdate [simp]: "queues (fold forceUpdate xs s) = queues s"
  by (induction xs arbitrary: s) (simp_all add: forceUpdate_def)

lemma queues_runTask [simp]: "queues (runTask w s) = queues s"
  by (cases w)
     (simp_all add: reloadTask_def requireIndirect_def consoleError_def renderTask_def Let_def
        enterHotUpdate_def emit_def checkTailUpdates_def setTimeout_def split: option.splits)

lemma queues_runner [simp]: "queues (runner q (runTask w) s) = queues s"
  by (cases q) (simp_all add: unstable_batchedUpdates_def)

lemma queues_settle [simp]: "queues (settle h s) = queues s"
  by (simp add: settle_def)

text \<open>
  Modelled from the spec: \<open>createQueue\<close> of \<open>utils/runQueue\<close>. \<open>enqueue\<close> appends the work
  to the pending sequence and returns a handle that resolves after the work has run; when
  the queue is idle the work begins immediately, through the executor wrapper; when it is
  busy the work starts after the running task and all tasks enqueued before it have
  settled. \<open>processQueue\<close> runs the pending tasks in order, one at a time. The tasks of
  \<open>hot.dev.js\<close> return normally (\<open>reloadTask\<close> catches what \<open>requireIndirect\<close> throws).
\<close>

function processQueue :: "qid \<Rightarrow> state \<Rightarrow> state" where
  "processQueue q s =
     (case pending (queues s q) of
        [] \<Rightarrow> setQueue q [] False s
      | (w, h) # rest \<Rightarrow> processQueue q (settle h (runner q (runTask w) (setQueue q rest True s))))"
  by pat_completeness auto

termination
  by (relation "measure (\<lambda>(q, s). length (pending (queues s q)))") (simp_all add: setQueue_def)

declare processQueue.simps [simp del]

definition enqueue :: "qid \<Rightarrow> task \<Rightarrow> state \<Rightarrow> nat \<times> state" where
  "enqueue q w s =
     (let h = nextHandle s;
          s1 = setQueue q (pending (queues s q) @ [(w, h)]) (inFlight (queues s q))
                 (s\<lparr>nextHandle := Suc h\<rparr>)
      in (h, if inFlight (queues s q) then s1 else processQueue q s1))"

definition runInRequireQueue :: "task \<Rightarrow> state \<Rightarrow> nat \<times> state" where
  "runInRequireQueue = enqueue RequireQ"

definition runInRenderQueue :: "task \<Rightarrow> state \<Rightarrow> nat \<times> state" where
  "runInRenderQueue = enqueue RenderQ"

section \<open>The update orchestrator\<close>

text \<open>\<open>deepUpdate\<close>: enqueue the render task of the module; the handle is dropped.\<close>

definition deepUpdate :: "js_value \<Rightarrow> state \<Rightarrow> state" where
  "deepUpdate moduleId s = snd (runInRenderQueue (RenderTask moduleId) s)"

text \<open>\<open>updateInstances\<close>, the closure that \<open>makeHotExport\<close> creates for \<open>moduleId\<close>.\<close>

definition updateInstances :: "js_value \<Rightarrow> js_value \<Rightarrow> state \<Rightarrow> state" where
  "updateInstances moduleId possibleError s =
     (if truthy possibleError \<and> instanceofError possibleError
      then consoleError [CVal possibleError] s
      else (case runInRequireQueue (ReloadTask moduleId) (hotModule moduleId s) of
              (h, s2) \<Rightarrow> then_handle h (DeepUpdate moduleId) s2))"

text \<open>The double quote character of the messages.\<close>

definition dq :: string where
  "dq = [CHR 0x22]"

definition failMessage :: "js_value \<Rightarrow> js_value \<Rightarrow> string" where
  "failMessage moduleId lastOpened =
     ''hot update failed for module '' @ dq @ js_toString moduleId @ dq @
     ''. Last file processed: '' @ dq @ js_toString lastOpened @ dq @ ''.''"

definition tailWarning :: string where
  "tailWarning =
     ''React-Hot-Loader: some components were updated out-of-bound. Updating your app to reconcile the changes.''"

text \<open>What each closure does when the event loop calls it.\<close>

fun runCallback :: "callback \<Rightarrow> state \<Rightarrow> state" where
  "runCallback (FailbackFire moduleId) s =
     (let error = failMessage moduleId (getLastModuleOpened s)
      in logException error (loggerError error s))"
| "runCallback (TailCheck moduleId gen runLimit) s =
     (if getHotGeneration s \<noteq> gen then deepUpdate moduleId (loggerWarn tailWarning s)
      else if Suc runLimit < 5 then checkTailUpdates moduleId gen (Suc runLimit) s
      else s)"
| "runCallback (DeepUpdate moduleId) s = deepUpdate moduleId s"

section \<open>Registration: \<open>hot\<close> and the function it returns\<close>

text \<open>\<open>chargeFailbackTimer\<close>: one \<open>setTimeout\<close> of 100 ms; the callback is \<open>FailbackFire\<close>.\<close>

definition chargeFailbackTimer :: "js_value \<Rightarrow> state \<Rightarrow> nat \<times> state" where
  "chargeFailbackTimer moduleId s = setTimeout (FailbackFire moduleId) 100 s"

definition clearFailbackTimer :: "nat \<Rightarrow> state \<Rightarrow> state" where
  "clearFailbackTimer timerId s = clearTimeout timerId s"

text \<open>\<open>createHoc\<close>: the hoisting of static properties is left to its library; the display
  name is set and the target class returned.\<close>

definition createHoc :: "component \<Rightarrow> hoc \<Rightarrow> hoc" where
  "createHoc SourceComponent TargetComponent =
     TargetComponent\<lparr>displayName := ''HotExported'' @ getComponentDisplayName SourceComponent\<rparr>"

text \<open>
  \<open>makeHotExport\<close>: \<open>sourceModule.hot.accept(updateInstances)\<close> and
  \<open>addStatusHandler\<close> register closures with the host; a registered closure is kept as
  the module id it captures.
\<close>

definition makeHotExport :: "source_module \<Rightarrow> js_value \<Rightarrow> state \<Rightarrow> state" where
  "makeHotExport sourceModule moduleId s =
     (case mod_hot sourceModule of
        Some h \<Rightarrow>
          (let s1 = s\<lparr>acceptHandlers := acceptHandlers s @ [moduleId]\<rparr>
           in if has_addStatusHandler h
              then (if hot_status h = ''idle''
                    then s1\<lparr>statusHandlers := statusHandlers s1 @ [moduleId]\<rparr>
                    else s1)
              else s1)
      | None \<Rightarrow> loggerWarn ''React-hot-loader: Hot Module Replacement is not enabled'' s)"

text \<open>The function given to \<open>addStatusHandler\<close>.\<close>

definition statusHandler :: "js_value \<Rightarrow> string \<Rightarrow> state \<Rightarrow> state" where
  "statusHandler moduleId status s =
     (if status = ''apply'' then updateInstances moduleId JUndefined (clearExceptions s) else s)"

datatype error = Error string

definition resolveModuleId :: "source_module \<Rightarrow> js_value" where
  "resolveModuleId sourceModule =
     js_or (js_or (mod_id sourceModule) (mod_i sourceModule)) (mod_filename sourceModule)"

text \<open>
  \<open>hot\<close>: \<open>None\<close> is a call without a (truthy) argument. A \<open>throw\<close> is the result
  \<open>Inl\<close>; otherwise the result is the function returned, named by the index of its
  closure variables in \<open>closures\<close>.
\<close>

definition hot :: "source_module option \<Rightarrow> state \<Rightarrow> (error + nat) \<times> state" where
  "hot arg s =
     (case arg of
        None \<Rightarrow>
          (Inl (Error ''React-hot-loader: `hot` was called without any argument provided''), s)
      | Some sourceModule \<Rightarrow>
          (let moduleId = resolveModuleId sourceModule
           in if \<not> truthy moduleId
              then (Inl (Error ''React-hot-loader: `hot` could not find the `name` of the the `module` you have provided''),
                    consoleError [CStr ''`module` provided'', CModule sourceModule] s)
              else (case chargeFailbackTimer moduleId
                           (clearExceptions (makeHotExport sourceModule moduleId (hotModule moduleId s))) of
                      (failbackTimer, s4) \<Rightarrow>
                        (Inr (length (closures s4)),
                         s4\<lparr>closures := closures s4 @
                              [\<lparr>cl_source = sourceModule, cl_moduleId = moduleId,
                                cl_failbackTimer = failbackTimer, firstHotRegistered = False\<rparr>]\<rparr>))))"

text \<open>\<open>reactHotLoader.register\<close> is the proxy registry of the hot loader: it is recorded.\<close>

definition register :: "component \<Rightarrow> string \<Rightarrow> string \<Rightarrow> state \<Rightarrow> state" where
  "register c name fileName = emit (Register c name fileName)"

text \<open>
  The function \<open>(WrappedComponent, props) => ...\<close> that \<open>hot\<close> returned as closure \<open>w\<close>. It
  exists only once \<open>hot\<close> has returned it; for any other \<open>w\<close> there is nothing to call.
\<close>

definition exportWrapper :: "nat \<Rightarrow> component \<Rightarrow> props \<Rightarrow> state \<Rightarrow> hoc option \<times> state" where
  "exportWrapper w WrappedComponent ps s =
     (if w < length (closures s)
      then (let c = closures s ! w;
                s1 = clearFailbackTimer (cl_failbackTimer c) s;
                s2 = (if \<not> firstHotRegistered c
                      then register WrappedComponent (getComponentDisplayName WrappedComponent)
                             (''RHL'' @ js_toString (cl_moduleId c))
                             (s1\<lparr>closures := (closures s1)[w := c\<lparr>firstHotRegistered := True\<rparr>]\<rparr>)
                      else s1)
            in (Some (createHoc WrappedComponent
                        \<lparr>hoc_source = cl_source c, hoc_moduleId = cl_moduleId c,
                          hoc_wrapped = WrappedComponent, hoc_props = ps, displayName = []\<rparr>),
                s2))
      else (None, s))"

section \<open>The lifecycle of an \<open>ExportedComponent\<close>\<close>

definition sq :: string where
  "sq = [CHR 0x27]"

definition nl :: string where
  "nl = [CHR 0x0A]"

definition unmountMessage :: "js_value \<Rightarrow> string \<Rightarrow> string" where
  "unmountMessage moduleId componentName =
     ''React-hot-loader: Detected AppContainer unmount on module '' @ sq @ js_toString moduleId @ sq @
       '' update.'' @ nl @
     ''Did you use '' @ dq @ ''hot('' @ componentName @ '')'' @ dq @ '' and '' @ dq @
       ''ReactDOM.render()'' @ dq @ '' in the same file?'' @ nl @
     dq @ ''hot('' @ componentName @ '')'' @ dq @ '' shall only be used as export.'' @ nl @
     ''Please refer to '' @ dq @ ''Getting Started'' @ dq @
       '' (https://github.com/gaearon/react-hot-loader/).''"

text \<open>\<open>componentDidMount\<close> of instance \<open>this\<close>: \<open>module.instances.push(this)\<close>.\<close>

definition componentDidMount :: "hoc \<Rightarrow> nat \<Rightarrow> state \<Rightarrow> state" where
  "componentDidMount cls this s =
     setInstances (hoc_moduleId cls) (instances (moduleRecord s (hoc_moduleId cls)) @ [this]) s"

text \<open>\<open>componentWillUnmount\<close> of instance \<open>this\<close>.\<close>

definition componentWillUnmount :: "hoc \<Rightarrow> nat \<Rightarrow> state \<Rightarrow> state" where
  "componentWillUnmount cls this s =
     (let s1 = (if isModuleOpened (hoc_source cls) s
                then loggerError
                       (unmountMessage (hoc_moduleId cls) (getComponentDisplayName (hoc_wrapped cls))) s
                else s)
      in setInstances (hoc_moduleId cls)
           (filter (\<lambda>a. a \<noteq> this) (instances (moduleRecord s1 (hoc_moduleId cls)))) s1)"

section \<open>The event loop\<close>

text \<open>
  The work that promises still hold: continuations waiting for a handle, and microtasks.
  No closure of \<open>hot.dev.js\<close> adds to it when it runs, which is why draining the
  microtasks comes to an end.
\<close>

definition openWork :: "state \<Rightarrow> nat" where
  "openWork s = length (thens s) + length (microtasks s)"

lemma openWork_emit [simp]: "openWork (emit e s) = openWork s"
  by (simp add: openWork_def emit_def)

lemma fold_forceUpdate: "fold forceUpdate xs s = s\<lparr>trace := trace s @ map ForceUpdate xs\<rparr>"
  by (induction xs arbitrary: s) (simp_all add: forceUpdate_def emit_def)

lemma openWork_fold_forceUpdate [simp]: "openWork (fold forceUpdate xs s) = openWork s"
  by (simp add: fold_forceUpdate openWork_def)

lemma openWork_runTask [simp]: "openWork (runTask w s) = openWork s"
  by (cases w)
     (simp_all add: reloadTask_def requireIndirect_def consoleError_def renderTask_def Let_def
        enterHotUpdate_def checkTailUpdates_def setTimeout_def openWork_def emit_def fold_forceUpdate
        split: option.splits)

lemma openWork_runner [simp]: "openWork (runner q (runTask w) s) = openWork s"
  by (cases q) (simp_all add: unstable_batchedUpdates_def)

lemma openWork_settle [simp]: "openWork (settle h s) = openWork s"
proof -
  have "length (filter (\<lambda>p. fst p = h) (thens s)) + length (filter (\<lambda>p. fst p \<noteq> h) (thens s))
        = length (thens s)"
    using sum_length_filter_compl [of "\<lambda>p. fst p = h" "thens s"] by simp
  then show ?thesis by (simp add: openWork_def settle_def)
qed

lemma openWork_setQueue [simp]: "openWork (setQueue q ps fl s) = openWork s"
  by (simp add: openWork_def setQueue_def)

lemma openWork_processQueue [simp]: "openWork (processQueue q s) = openWork s"
proof (induction q s rule: processQueue.induct)
  case (1 q s)
  show ?case
  proof (cases "pending (queues s q)")
    case Nil
    then show ?thesis by (simp add: processQueue.simps [of q s])
  next
    case (Cons p rest)
    obtain w h where p: "p = (w, h)" by (cases p)
    from 1 [OF Cons [unfolded p]] Cons p show ?thesis
      by (simp add: processQueue.simps [of q s])
  qed
qed

lemma openWork_enqueue [simp]: "openWork (snd (enqueue q w s)) = openWork s"
  by (simp add: enqueue_def Let_def) (simp add: openWork_def)

lemma openWork_deepUpdate [simp]: "openWork (deepUpdate m s) = openWork s"
  by (simp add: deepUpdate_def runInRenderQueue_def)

lemma openWork_runCallback [simp]: "openWork (runCallback cb s) = openWork s"
  by (cases cb)
     (simp_all add: Let_def logException_def loggerError_def loggerWarn_def checkTailUpdates_def
        setTimeout_def, simp_all add: openWork_def)

text \<open>After each macrotask the event loop runs the microtasks until none is left.\<close>

function drainMicrotasks :: "state \<Rightarrow> state" where
  "drainMicrotasks s =
     (case microtasks s of
        [] \<Rightarrow> s
      | cb # rest \<Rightarrow> drainMicrotasks (runCallback cb (s\<lparr>microtasks := rest\<rparr>)))"
  by pat_completeness auto

termination
proof (relation "measure openWork")
  show "wf (measure openWork)" by simp
next
  fix s :: state and cb rest
  assume "microtasks s = cb # rest"
  then have "openWork (s\<lparr>microtasks := rest\<rparr>) < openWork s"
    by (simp add: openWork_def)
  then show "(runCallback cb (s\<lparr>microtasks := rest\<rparr>), s) \<in> measure openWork"
    by simp
qed

declare drainMicrotasks.simps [simp del]

text \<open>
  The timer that fires next: the pending timer that may fire earliest, the one set first
  among equals.
\<close>

fun earliest :: "(nat \<times> nat \<times> callback) list \<Rightarrow> (nat \<times> nat \<times> callback) option" where
  "earliest [] = None"
| "earliest (t # ts) =
     (case earliest ts of
        None \<Rightarrow> Some t
      | Some u \<Rightarrow> if fst (snd u) < fst (snd t) then Some u else Some t)"

text \<open>
  Firing a timer: it is due, it leaves the pending timers, and its callback runs. The
  event loop notes in \<open>dispatched\<close> which timer it fired, with its callback and the value
  of the generation counter at that moment; the program never reads this history.
\<close>

definition fireTimer :: "state \<Rightarrow> state" where
  "fireTimer s =
     (case earliest (timers s) of
        None \<Rightarrow> s
      | Some (timerId, due, cb) \<Rightarrow>
          if due \<le> now s
          then runCallback cb
                 (s\<lparr>timers := filter (\<lambda>t. fst t \<noteq> timerId) (timers s),
                    dispatched := dispatched s @ [(timerId, cb, generation s)]\<rparr>)
          else s)"

text \<open>
  What can happen from outside, one macrotask each: time passes; the event loop fires the
  next due timer; the bundler evaluates a module that calls \<open>hot\<close>, or calls a function
  that \<open>hot\<close> returned; the UI framework mounts a new instance of an exported class or
  unmounts an instance; the host calls a registered accept callback with a payload, or
  moves to a new status and calls the registered status handlers in order; the host
  changes what it answers.
\<close>

datatype event =
    Elapse nat
  | FireTimer
  | CallHot "source_module option"
  | CallWrapper nat component props
  | Mount hoc
  | Unmount hoc nat
  | Accept js_value js_value
  | Status string
  | HostChange host

fun handleEvent :: "event \<Rightarrow> state \<Rightarrow> state" where
  "handleEvent (Elapse d) s = s\<lparr>now := now s + d\<rparr>"
| "handleEvent FireTimer s = fireTimer s"
| "handleEvent (CallHot arg) s = snd (hot arg s)"
| "handleEvent (CallWrapper w c ps) s = snd (exportWrapper w c ps s)"
| "handleEvent (Mount cls) s =
     componentDidMount cls (nextInstance s) (s\<lparr>nextInstance := Suc (nextInstance s)\<rparr>)"
| "handleEvent (Unmount cls this) s = componentWillUnmount cls this s"
| "handleEvent (Accept moduleId payload) s =
     (if moduleId \<in> set (acceptHandlers s) then updateInstances moduleId payload s else s)"
| "handleEvent (Status status) s = fold (\<lambda>moduleId. statusHandler moduleId status) (statusHandlers s) s"
| "handleEvent (HostChange h) s = s\<lparr>env := h\<rparr>"

definition macrotask :: "event \<Rightarrow> state \<Rightarrow> state" where
  "macrotask ev s = drainMicrotasks (handleEvent ev s)"

definition run :: "event list \<Rightarrow> state \<Rightarrow> state" where
  "run evs s = fold macrotask evs s"

text \<open>The state of a freshly loaded page: nothing registered, both queues idle.\<close>

definition initial :: "host \<Rightarrow> state" where
  "initial h =
     \<lparr>generation = 0, hotModules = Map.empty, trace = [], now = 0, timers = [], nextTimerId = 0,
      queues = (\<lambda>q. \<lparr>pending = [], inFlight = False\<rparr>), settled = [], thens = [], nextHandle = 0,
      microtasks = [], closures = [], acceptHandlers = [], statusHandlers = [], nextInstance = 0,
      dispatched = [], env = h\<rparr>"

section \<open>States between macrotasks\<close>

text \<open>
  A state is calm when both queues are idle and no continuation waits for a handle; it is
  quiescent when, in addition, no microtask is left. The event loop starts quiescent and
  is quiescent again after every macrotask (\<open>quiescent_run\<close> below), so the host's
  callbacks and the timers always find the program in such a state.
\<close>

definition idleQueue :: queue where
  "idleQueue = \<lparr>pending = [], inFlight = False\<rparr>"

definition calm :: "state \<Rightarrow> bool" where
  "calm s = (queues s RequireQ = idleQueue \<and> queues s RenderQ = idleQueue \<and> thens s = [])"

definition quiescent :: "state \<Rightarrow> bool" where
  "quiescent s = (calm s \<and> microtasks s = [])"

text \<open>What the reload task of a module records: the re-require, and the two
  \<open>console.error\<close> calls of the \<open>catch\<close> when it throws.\<close>

definition reloadEffects :: "state \<Rightarrow> js_value \<Rightarrow> effect list" where
  "reloadEffects s moduleId =
     RequireIndirect moduleId #
     (case requireThrows (env s) moduleId of
        None \<Rightarrow> []
      | Some e \<Rightarrow>
          [ConsoleError [CStr ''React-Hot-Loader: error detected while loading'', CVal moduleId],
           ConsoleError [CVal e]])"

text \<open>The timer that the render task sets when tail updates are tracked.\<close>

definition tailTimer :: "state \<Rightarrow> js_value \<Rightarrow> (nat \<times> nat \<times> callback) list" where
  "tailTimer s moduleId =
     (if trackTailUpdates (env s)
      then [(nextTimerId s, now s + 16, TailCheck moduleId (Suc (generation s)) 0)] else [])"

definition devHost :: host where
  "devHost =
     \<lparr>trackTailUpdates = True, has_batchedUpdates = True, requireThrows = (\<lambda>m. None),
      moduleOpened = (\<lambda>m. False), lastModuleOpened = JStr ''./src/App.js''\<rparr>"

definition failingHost :: host where
  "failingHost = devHost\<lparr>requireThrows := (\<lambda>m. Some (JError ''Cannot find module''))\<rparr>"

text \<open>
  The calls of \<open>hot\<close> without a usable module: no module object, or a module object none
  of whose fields \<open>id\<close>, \<open>i\<close>, \<open>filename\<close> is truthy.
\<close>

definition invalidRegistration :: "source_module option \<Rightarrow> bool" where
  "invalidRegistration arg =
     (case arg of
        None \<Rightarrow> True
      | Some sourceModule \<Rightarrow>
          \<not> truthy (mod_id sourceModule) \<and> \<not> truthy (mod_i sourceModule) \<and>
          \<not> truthy (mod_filename sourceModule))"

text \<open>
  A module object without a usable name: its id is the number 0 and its file name is empty.
\<close>

definition namelessModule :: source_module where
  "namelessModule =
     \<lparr>mod_id = JNum 0, mod_i = JUndefined, mod_filename = JStr [],
      mod_hot = Some \<lparr>hot_status = ''idle'', has_addStatusHandler = True\<rparr>\<rparr>"

text \<open>
  The chain of polls that a timer callback belongs to: a \<open>TailCheck\<close> belongs to the deep
  update whose epoch \<open>gen\<close> it captured; the epoch names the chain, since every run of the
  render task takes a new one.
\<close>

fun chainOf :: "callback \<Rightarrow> nat option" where
  "chainOf (TailCheck moduleId gen runLimit) = Some gen"
| "chainOf cb = None"

text \<open>
  \<open>polls gen ds\<close>: how many polls of the chain \<open>gen\<close> the event loop has dispatched;
  \<open>mismatches gen ds\<close>: how many of them found the generation counter changed.
\<close>

definition polls :: "nat \<Rightarrow> (nat \<times> callback \<times> nat) list \<Rightarrow> nat" where
  "polls gen ds = length (filter (\<lambda>d. chainOf (fst (snd d)) = Some gen) ds)"

definition mismatches :: "nat \<Rightarrow> (nat \<times> callback \<times> nat) list \<Rightarrow> nat" where
  "mismatches gen ds =
     length (filter (\<lambda>d. chainOf (fst (snd d)) = Some gen \<and> snd (snd d) \<noteq> gen) ds)"

text \<open>
  The invariant of the tail polls, over the generation counter, the pending timers and the
  dispatch history: a pending poll of a chain carries the number of polls the chain has
  had, all of which found the counter unchanged; a chain has at most one pending poll; no
  chain has had more than five polls or more than one mismatch; chains of future epochs have
  had none.
\<close>

definition chainPending :: "nat \<Rightarrow> (nat \<times> nat \<times> callback) list \<Rightarrow> bool" where
  "chainPending g ts = (\<exists>i d m k. (i, d, TailCheck m g k) \<in> set ts)"

definition tailA :: "nat \<Rightarrow> (nat \<times> nat \<times> callback) list \<Rightarrow> (nat \<times> callback \<times> nat) list \<Rightarrow> bool" where
  "tailA gen ts ds =
     (\<forall>i d m g k. (i, d, TailCheck m g k) \<in> set ts \<longrightarrow>
        g \<le> gen \<and> k < 5 \<and> polls g ds = k \<and> mismatches g ds = 0)"

definition tailB :: "(nat \<times> nat \<times> callback) list \<Rightarrow> bool" where
  "tailB ts =
     (\<forall>i d m g k i' d' m' k'.
        (i, d, TailCheck m g k) \<in> set ts \<longrightarrow> (i', d', TailCheck m' g k') \<in> set ts \<longrightarrow> i = i')"

definition tailC :: "nat \<Rightarrow> (nat \<times> callback \<times> nat) list \<Rightarrow> bool" where
  "tailC gen ds = (\<forall>g. polls g ds \<le> 5 \<and> mismatches g ds \<le> 1 \<and> (gen < g \<longrightarrow> polls g ds = 0))"

definition tailInv :: "nat \<Rightarrow> (nat \<times> nat \<times> callback) list \<Rightarrow> (nat \<times> callback \<times> nat) list \<Rightarrow> bool" where
  "tailInv gen ts ds = (tailA gen ts ds \<and> tailB ts \<and> tailC gen ds)"

text \<open>
  The microtasks of a reachable state are continuations \<open>deepUpdate\<close> only.
\<close>

fun isDeepUpdate :: "callback \<Rightarrow> bool" where
  "isDeepUpdate (DeepUpdate moduleId) = True"
| "isDeepUpdate cb = False"

definition deepOnly :: "state \<Rightarrow> bool" where
  "deepOnly s = list_all isDeepUpdate (microtasks s)"

definition tailOK :: "state \<Rightarrow> bool" where
  "tailOK s = tailInv (generation s) (timers s) (dispatched s)"

text \<open>
  The invariant of timer ids, over the next id, the pending timers, the dispatch history and
  the failback timers kept by the closures of \<open>hot\<close>: every id in use is below the next
  id, no id is pending twice or dispatched twice or both, and no two closures share a timer.
\<close>

definition timersInv ::
  "nat \<Rightarrow> (nat \<times> nat \<times> callback) list \<Rightarrow> (nat \<times> callback \<times> nat) list \<Rightarrow> nat list \<Rightarrow> bool" where
  "timersInv nxt ts ds cs =
     ((\<forall>t \<in> set ts. fst t < nxt) \<and> (\<forall>d \<in> set ds. fst d < nxt) \<and> (\<forall>c \<in> set cs. c < nxt)
      \<and> distinct (map fst ts) \<and> distinct (map fst ds)
      \<and> fst ` set ts \<inter> fst ` set ds = {} \<and> distinct cs)"

text \<open>
  The invariants as properties of a state; a state is sound when it is quiescent and both
  hold. Every state that the event loop reaches from the initial state is sound
  (\<open>sound_run\<close> below).
\<close>

definition timersOK :: "state \<Rightarrow> bool" where
  "timersOK s = timersInv (nextTimerId s) (timers s) (dispatched s) (map cl_failbackTimer (closures s))"

definition sound :: "state \<Rightarrow> bool" where
  "sound s = (quiescent s \<and> tailOK s \<and> timersOK s)"

text \<open>
  A module, a component and the class exported for it, as a running application has them;
  \<open>mountedTwice\<close> registers the module, wraps the component and mounts two instances;
  \<open>fivePolls\<close> then triggers one update and lets the event loop fire timers six times,
  16 ms apart. \<open>openHost\<close> reports every module as open.
\<close>

definition appModule :: source_module where
  "appModule =
     \<lparr>mod_id = JStr ''./src/App.js'', mod_i = JUndefined, mod_filename = JUndefined,
      mod_hot = Some \<lparr>hot_status = ''idle'', has_addStatusHandler = True\<rparr>\<rparr>"

definition appComponent :: component where
  "appComponent = \<lparr>comp_name = ''App''\<rparr>"

definition appHoc :: hoc where
  "appHoc =
     \<lparr>hoc_source = appModule, hoc_moduleId = JStr ''./src/App.js'', hoc_wrapped = appComponent,
      hoc_props = [], displayName = ''HotExportedApp''\<rparr>"

definition mountedTwice :: "event list" where
  "mountedTwice = [CallHot (Some appModule), CallWrapper 0 appComponent [], Mount appHoc, Mount appHoc]"

definition fivePolls :: "event list" where
  "fivePolls =
     mountedTwice @
     [Accept (JStr ''./src/App.js'') JUndefined,
      Elapse 16, FireTimer, Elapse 16, FireTimer, Elapse 16, FireTimer, Elapse 16, FireTimer,
      Elapse 16, FireTimer, Elapse 16, FireTimer]"

definition openHost :: host where
  "openHost = devHost\<lparr>moduleOpened := (\<lambda>m. True)\<rparr>"

text \<open>
  The function that \<open>hot\<close> returned as closure \<open>w\<close>, called once for each element of a list.
\<close>

definition invokeAll :: "nat \<Rightarrow> (component \<times> props) list \<Rightarrow> state \<Rightarrow> state" where
  "invokeAll w calls s = fold (\<lambda>call s'. snd (exportWrapper w (fst call) (snd call) s')) calls s"

text \<open>
  The invariant of the instance registry: no module record holds an instance twice, and
  every registered instance was created by a mount.
\<close>

definition registryOK :: "state \<Rightarrow> bool" where
  "registryOK s =
     (\<forall>m. distinct (instances (moduleRecord s m))
          \<and> (\<forall>i \<in> set (instances (moduleRecord s m)). i < nextInstance s))"







text \<open>
  A module with the id \<open>B\<close>.
\<close>

definition moduleB :: source_module where
  "moduleB =
     \<lparr>mod_id = JStr ''B'', mod_i = JUndefined, mod_filename = JUndefined,
      mod_hot = Some \<lparr>hot_status = ''idle'', has_addStatusHandler = True\<rparr>\<rparr>"

text \<open>
  The polls that the event loop has dispatched, of whatever chain, and the polls that are
  pending.
\<close>

definition pollsDispatched :: "state \<Rightarrow> nat" where
  "pollsDispatched s = length (filter (\<lambda>d. chainOf (fst (snd d)) \<noteq> None) (dispatched s))"

definition pollsPending :: "state \<Rightarrow> nat" where
  "pollsPending s = length (filter (\<lambda>t. chainOf (snd (snd t)) \<noteq> None) (timers s))"

text \<open>
  \<open>twoTriggers\<close>: after \<open>mountedTwice\<close> the host triggers two updates of the module, 5 ms
  apart, and the event loop then fires the due timers every 16 ms, six times.
\<close>

definition twoTriggers :: "event list" where
  "twoTriggers =
     mountedTwice @
     [Accept (JStr ''./src/App.js'') JUndefined, Elapse 5, Accept (JStr ''./src/App.js'') JUndefined,
      Elapse 16, FireTimer, FireTimer, Elapse 16, FireTimer, FireTimer, Elapse 16, FireTimer, FireTimer,
      Elapse 16, FireTimer, FireTimer, Elapse 16, FireTimer, FireTimer, Elapse 16, FireTimer, FireTimer]"

text \<open>
  The handles that a state holds: those of the tasks that have settled, of the continuations
  that wait, and of the tasks pending in the two queues. \<open>enqueue\<close> numbers a handle as it
  creates it, so in every state that the program reaches all handles held are below the
  next one (\<open>handlesFresh_run\<close> below): the handle that \<open>enqueue\<close> returns is one that
  nothing holds yet, as a new promise is.
\<close>

definition handlesInUse :: "state \<Rightarrow> nat list" where
  "handlesInUse s =
     settled s @ map fst (thens s) @ map snd (pending (queues s RequireQ)) @
     map snd (pending (queues s RenderQ))"

definition handlesFresh :: "state \<Rightarrow> bool" where
  "handlesFresh s = list_all (\<lambda>h. h < nextHandle s) (handlesInUse s)"

text \<open>
  \<open>runPending q ps\<close>: the tasks \<open>ps\<close> of the queue \<open>q\<close> run in order, each settling its
  handle. This is what \<open>processQueue\<close> does with the pending tasks, the bookkeeping of the
  queue left aside (\<open>processQueue_runPending\<close> below).
\<close>

definition runPending :: "qid \<Rightarrow> (task \<times> nat) list \<Rightarrow> state \<Rightarrow> state" where
  "runPending q ps s = fold (\<lambda>p s'. settle (snd p) (runner q (runTask (fst p)) s')) ps s"

text \<open>
  \<open>running q\<close>: a state in which a task of the queue \<open>q\<close> is running, on a host whose
  re-require throws. \<open>twoRegistered\<close>: two modules are registered, each with a status
  handler.
\<close>

definition running :: "qid \<Rightarrow> state" where
  "running q =
     (initial failingHost)\<lparr>queues := (\<lambda>q'. idleQueue)(q := \<lparr>pending = [], inFlight = True\<rparr>)\<rparr>"

definition twoRegistered :: "event list" where
  "twoRegistered = [CallHot (Some appModule), CallHot (Some moduleB)]"

text \<open>
  \<open>reloadWaiting\<close>: a task of the require queue is running and the update of another
  module waits behind it. \<open>secondHandler\<close>: the host has moved to the status \<open>apply\<close>, the
  status handler of the first module has returned, and the handler of the second module is
  about to call \<open>updateInstances\<close>.
\<close>

definition reloadWaiting :: state where
  "reloadWaiting = updateInstances (JStr ''./src/Other.js'') JUndefined (running RequireQ)"

definition secondHandler :: state where
  "secondHandler =
     clearExceptions (statusHandler (JStr ''./src/App.js'') ''apply'' (run twoRegistered (initial devHost)))"

text \<open>
  The reports that a trace holds for the exception sink, and the failback timers that the
  event loop has dispatched.
\<close>

fun isReport :: "effect \<Rightarrow> bool" where
  "isReport (LogException message) = True"
| "isReport e = False"

fun isFailback :: "callback \<Rightarrow> bool" where
  "isFailback (FailbackFire moduleId) = True"
| "isFailback cb = False"

definition reportCount :: "state \<Rightarrow> nat" where
  "reportCount s = length (filter isReport (trace s))"

definition failbackCount :: "state \<Rightarrow> nat" where
  "failbackCount s = length (filter (\<lambda>d. isFailback (fst (snd d))) (dispatched s))"

definition reportsOK :: "state \<Rightarrow> bool" where
  "reportsOK s = (reportCount s = failbackCount s)"

section \<open>The tasks and the queues, computed\<close>

lemma initial_fields:
  "generation (initial h) = 0" "hotModules (initial h) = Map.empty" "trace (initial h) = []"
  "now (initial h) = 0" "timers (initial h) = []" "nextTimerId (initial h) = 0"
  "settled (initial h) = []" "thens (initial h) = []" "nextHandle (initial h) = 0"
  "microtasks (initial h) = []" "closures (initial h) = []" "acceptHandlers (initial h) = []"
  "statusHandlers (initial h) = []" "nextInstance (initial h) = 0" "dispatched (initial h) = []"
  "env (initial h) = h" "queues (initial h) q = idleQueue"
  by (simp_all add: initial_def idleQueue_def)

lemma forceUpdated_append: "forceUpdated (xs @ ys) = forceUpdated xs @ forceUpdated ys"
  by (induction xs rule: forceUpdated.induct) simp_all

lemma forceUpdated_map: "forceUpdated (map ForceUpdate xs) = xs"
  by (induction xs) simp_all

lemma reloadTask_eq: "reloadTask m s = s\<lparr>trace := trace s @ reloadEffects s m\<rparr>"
  by (simp add: reloadTask_def requireIndirect_def consoleError_def emit_def reloadEffects_def
      split: option.splits)

lemma renderTask_eq:
  "renderTask m s =
     s\<lparr>generation := Suc (generation s),
       trace := trace s @ EnterHotUpdate # map ForceUpdate (instances (moduleRecord s m)),
       timers := timers s @ tailTimer s m,
       nextTimerId := nextTimerId s + length (tailTimer s m)\<rparr>"
  by (simp add: renderTask_def Let_def enterHotUpdate_def emit_def getHotGeneration_def fold_forceUpdate
      checkTailUpdates_def setTimeout_def tailTimer_def moduleRecord_def)

lemma processQueue_single:
  assumes "pending (queues s q) = [(w, h)]"
  shows "processQueue q s = setQueue q [] False (settle h (runner q (runTask w) (setQueue q [] True s)))"
proof -
  let ?s1 = "settle h (runner q (runTask w) (setQueue q [] True s))"
  have "pending (queues ?s1 q) = []"
    by (simp add: setQueue_def)
  then have "processQueue q ?s1 = setQueue q [] False ?s1"
    by (simp add: processQueue.simps [of q ?s1])
  with assms show ?thesis
    by (simp add: processQueue.simps [of q s])
qed

lemma enqueue_idle:
  assumes "queues s q = idleQueue"
  shows "enqueue q w s =
     (nextHandle s,
      setQueue q [] False
        (settle (nextHandle s) (runner q (runTask w) (setQueue q [] True (s\<lparr>nextHandle := Suc (nextHandle s)\<rparr>)))))"
proof -
  let ?s1 = "setQueue q [(w, nextHandle s)] False (s\<lparr>nextHandle := Suc (nextHandle s)\<rparr>)"
  have "pending (queues ?s1 q) = [(w, nextHandle s)]"
    by (simp add: setQueue_def)
  from processQueue_single [OF this]
  have "processQueue q ?s1 =
     setQueue q [] False
        (settle (nextHandle s) (runner q (runTask w) (setQueue q [] True ?s1)))" .
  moreover have "setQueue q [] True ?s1 = setQueue q [] True (s\<lparr>nextHandle := Suc (nextHandle s)\<rparr>)"
    by (simp add: setQueue_def)
  ultimately show ?thesis
    using assms by (simp add: enqueue_def Let_def idleQueue_def)
qed

section \<open>Quiescence is invariant\<close>

lemma updateInstances_error:
  assumes "instanceofError e"
  shows "updateInstances m e s = s\<lparr>trace := trace s @ [ConsoleError [CVal e]]\<rparr>"
proof (cases e)
  case (JError msg)
  then show ?thesis
    by (simp add: updateInstances_def consoleError_def emit_def)
qed (use assms in simp_all)

lemma updateInstances_calm:
  assumes "calm s" and "\<not> instanceofError e"
  shows "updateInstances m e s =
     (hotModule m s)\<lparr>trace := trace s @ reloadEffects s m,
        nextHandle := Suc (nextHandle s),
        settled := nextHandle s # settled s,
        microtasks := microtasks s @ [DeepUpdate m]\<rparr>"
proof -
  have idle: "queues (hotModule m s) RequireQ = idleQueue"
    using assms(1) by (simp add: calm_def hotModule_def split: option.splits)
  have abort: "\<not> (truthy e \<and> instanceofError e)"
    using assms(2) by simp
  show ?thesis
    using assms(1)
    unfolding updateInstances_def runInRequireQueue_def enqueue_idle [OF idle] if_not_P [OF abort]
    by (simp add: reloadTask_eq then_handle_def settle_def setQueue_def hotModule_def calm_def
        idleQueue_def reloadEffects_def fun_upd_idem split: option.splits)
qed

lemma deepUpdate_calm:
  assumes "calm s"
  shows "deepUpdate m s =
     s\<lparr>generation := Suc (generation s),
       trace := trace s @ EnterHotUpdate # map ForceUpdate (instances (moduleRecord s m)),
       timers := timers s @ tailTimer s m,
       nextTimerId := nextTimerId s + length (tailTimer s m),
       nextHandle := Suc (nextHandle s),
       settled := nextHandle s # settled s\<rparr>"
proof -
  have idle: "queues s RenderQ = idleQueue"
    using assms by (simp add: calm_def)
  show ?thesis
    using assms
    unfolding deepUpdate_def runInRenderQueue_def enqueue_idle [OF idle]
    by (simp add: renderTask_eq settle_def setQueue_def calm_def idleQueue_def fun_upd_idem
        unstable_batchedUpdates_def tailTimer_def moduleRecord_def)
qed

lemma calm_deepUpdate: "calm s \<Longrightarrow> calm (deepUpdate m s)"
  by (simp add: deepUpdate_calm) (simp add: calm_def)

lemma microtasks_deepUpdate: "calm s \<Longrightarrow> microtasks (deepUpdate m s) = microtasks s"
  by (simp add: deepUpdate_calm)

lemma calm_runCallback: "calm s \<Longrightarrow> calm (runCallback cb s)"
proof (cases cb)
  case (FailbackFire m)
  assume "calm s"
  then show ?thesis
    by (simp add: FailbackFire Let_def logException_def loggerError_def emit_def calm_def)
next
  case (TailCheck m g k)
  assume c: "calm s"
  then have "calm (loggerWarn tailWarning s)"
    by (simp add: loggerWarn_def emit_def calm_def)
  from calm_deepUpdate [OF this] c show ?thesis
    by (simp add: TailCheck checkTailUpdates_def setTimeout_def) (simp add: calm_def)
next
  case (DeepUpdate m)
  assume "calm s"
  then show ?thesis
    by (simp add: DeepUpdate calm_deepUpdate)
qed

lemma microtasks_runCallback: "calm s \<Longrightarrow> microtasks (runCallback cb s) = microtasks s"
proof (cases cb)
  case (TailCheck m g k)
  assume c: "calm s"
  then have "calm (loggerWarn tailWarning s)"
    by (simp add: loggerWarn_def emit_def calm_def)
  from microtasks_deepUpdate [OF this] show ?thesis
    by (simp add: TailCheck checkTailUpdates_def setTimeout_def loggerWarn_def emit_def)
qed (simp_all add: Let_def logException_def loggerError_def emit_def microtasks_deepUpdate)

lemma drainMicrotasks_Nil: "microtasks s = [] \<Longrightarrow> drainMicrotasks s = s"
  by (simp add: drainMicrotasks.simps [of s])

lemma drainMicrotasks_Cons:
  "microtasks s = cb # rest \<Longrightarrow> drainMicrotasks s = drainMicrotasks (runCallback cb (s\<lparr>microtasks := rest\<rparr>))"
  by (simp add: drainMicrotasks.simps [of s])

lemma quiescent_drainMicrotasks: "calm s \<Longrightarrow> quiescent (drainMicrotasks s)"
proof (induction s rule: drainMicrotasks.induct)
  case (1 s)
  show ?case
  proof (cases "microtasks s")
    case Nil
    with "1.prems" show ?thesis
      by (simp add: drainMicrotasks_Nil quiescent_def)
  next
    case (Cons cb rest)
    have "calm (s\<lparr>microtasks := rest\<rparr>)"
      using "1.prems" by (simp add: calm_def)
    then have "calm (runCallback cb (s\<lparr>microtasks := rest\<rparr>))"
      by (rule calm_runCallback)
    from "1.IH" [OF Cons this] show ?thesis
      by (simp add: drainMicrotasks_Cons [OF Cons])
  qed
qed

lemma calm_statusHandlers: "calm s \<Longrightarrow> calm (fold (\<lambda>m. statusHandler m st) ms s)"
proof (induction ms arbitrary: s)
  case Nil
  then show ?case by simp
next
  case (Cons m ms)
  have "calm (clearExceptions s)"
    using Cons.prems by (simp add: clearExceptions_def emit_def calm_def)
  then have "calm (updateInstances m JUndefined (clearExceptions s))"
    by (simp add: updateInstances_calm) (simp add: calm_def hotModule_def split: option.splits)
  with Cons show ?case
    by (simp add: statusHandler_def)
qed

lemma calm_handleEvent: "calm s \<Longrightarrow> calm (handleEvent ev s)"
proof (cases ev)
  case (Elapse d)
  assume "calm s" then show ?thesis by (simp add: Elapse calm_def)
next
  case FireTimer
  assume c: "calm s"
  show ?thesis
  proof (cases "earliest (timers s)")
    case None
    with c show ?thesis by (simp add: FireTimer fireTimer_def)
  next
    case (Some t)
    obtain i d cb where t: "t = (i, d, cb)" by (cases t)
    have "calm (s\<lparr>timers := filter (\<lambda>t. fst t \<noteq> i) (timers s),
                   dispatched := dispatched s @ [(i, cb, generation s)]\<rparr>)"
      using c by (simp add: calm_def)
    from calm_runCallback [OF this] c show ?thesis
      by (simp add: FireTimer fireTimer_def Some t)
  qed
next
  case (CallHot arg)
  assume "calm s" then show ?thesis
    by (simp add: CallHot hot_def Let_def consoleError_def emit_def chargeFailbackTimer_def
        setTimeout_def clearExceptions_def makeHotExport_def loggerWarn_def hotModule_def calm_def
        split: option.splits prod.splits)
next
  case (CallWrapper w c ps)
  assume "calm s" then show ?thesis
    by (simp add: CallWrapper exportWrapper_def Let_def clearFailbackTimer_def clearTimeout_def
        register_def emit_def calm_def)
next
  case (Mount cls)
  assume "calm s" then show ?thesis
    by (simp add: Mount componentDidMount_def setInstances_def calm_def)
next
  case (Unmount cls this)
  assume "calm s" then show ?thesis
    by (simp add: Unmount componentWillUnmount_def Let_def setInstances_def loggerError_def emit_def calm_def)
next
  case (Accept m e)
  assume c: "calm s"
  show ?thesis
  proof (cases "instanceofError e")
    case True
    with c show ?thesis
      by (simp add: Accept updateInstances_error) (simp add: calm_def)
  next
    case False
    with c show ?thesis
      by (simp add: Accept updateInstances_calm) (simp add: calm_def hotModule_def split: option.splits)
  qed
next
  case (Status st)
  assume "calm s" then show ?thesis
    by (simp add: Status calm_statusHandlers)
next
  case (HostChange h)
  assume "calm s" then show ?thesis by (simp add: HostChange calm_def)
qed

lemma quiescent_macrotask: "quiescent s \<Longrightarrow> quiescent (macrotask ev s)"
  by (simp add: macrotask_def quiescent_def quiescent_drainMicrotasks [unfolded quiescent_def] calm_handleEvent)

lemma quiescent_run: "quiescent s \<Longrightarrow> quiescent (run evs s)"
  unfolding run_def by (induction evs arbitrary: s) (simp_all add: quiescent_macrotask)

lemma quiescent_initial: "quiescent (initial h)"
  by (simp add: quiescent_def calm_def initial_def idleQueue_def)

section \<open>One update cycle\<close>

lemma moduleRecord_hotModule: "moduleRecord (hotModule m s) m' = moduleRecord s m'"
  by (simp add: moduleRecord_def hotModule_def split: option.splits)

lemma calm_updateInstances: "calm s \<Longrightarrow> calm (updateInstances m e s)"
proof (cases "instanceofError e")
  case True
  assume "calm s"
  with True show ?thesis
    by (simp add: updateInstances_error) (simp add: calm_def)
next
  case False
  assume "calm s"
  with False show ?thesis
    by (simp add: updateInstances_calm) (simp add: calm_def hotModule_def split: option.splits)
qed

lemma drainMicrotasks_DeepUpdate:
  assumes "calm s" and "microtasks s = [DeepUpdate m]"
  shows "drainMicrotasks s = deepUpdate m (s\<lparr>microtasks := []\<rparr>)"
proof -
  have c: "calm (s\<lparr>microtasks := []\<rparr>)"
    using assms(1) by (simp add: calm_def)
  have "drainMicrotasks s = drainMicrotasks (runCallback (DeepUpdate m) (s\<lparr>microtasks := []\<rparr>))"
    by (rule drainMicrotasks_Cons [OF assms(2)])
  also have "\<dots> = drainMicrotasks (deepUpdate m (s\<lparr>microtasks := []\<rparr>))"
    by simp
  also have "\<dots> = deepUpdate m (s\<lparr>microtasks := []\<rparr>)"
    by (rule drainMicrotasks_Nil) (simp add: microtasks_deepUpdate [OF c])
  finally show ?thesis .
qed

text \<open>One whole update of a module, from a quiescent state: the reload, then the deep update.\<close>

lemma update_cycle:
  assumes "quiescent s" and "\<not> instanceofError e"
  shows "drainMicrotasks (updateInstances m e s) =
     (hotModule m s)\<lparr>generation := Suc (generation s),
        trace := trace s @ reloadEffects s m @ EnterHotUpdate # map ForceUpdate (instances (moduleRecord s m)),
        timers := timers s @ tailTimer s m,
        nextTimerId := nextTimerId s + length (tailTimer s m),
        nextHandle := Suc (Suc (nextHandle s)),
        settled := Suc (nextHandle s) # nextHandle s # settled s\<rparr>"
proof -
  let ?s1 = "updateInstances m e s"
  have c: "calm s" and mt: "microtasks s = []"
    using assms(1) by (simp_all add: quiescent_def)
  have s1: "?s1 = (hotModule m s)\<lparr>trace := trace s @ reloadEffects s m,
        nextHandle := Suc (nextHandle s),
        settled := nextHandle s # settled s,
        microtasks := [DeepUpdate m]\<rparr>"
    using updateInstances_calm [OF c assms(2)] mt by simp
  have c1: "calm ?s1"
    using c by (rule calm_updateInstances)
  have m1: "microtasks ?s1 = [DeepUpdate m]"
    by (simp add: s1)
  have c2: "calm (?s1\<lparr>microtasks := []\<rparr>)"
    using c1 by (simp add: calm_def)
  have "drainMicrotasks ?s1 = deepUpdate m (?s1\<lparr>microtasks := []\<rparr>)"
    by (rule drainMicrotasks_DeepUpdate [OF c1 m1])
  also have "\<dots> = (hotModule m s)\<lparr>generation := Suc (generation s),
        trace := trace s @ reloadEffects s m @ EnterHotUpdate # map ForceUpdate (instances (moduleRecord s m)),
        timers := timers s @ tailTimer s m,
        nextTimerId := nextTimerId s + length (tailTimer s m),
        nextHandle := Suc (Suc (nextHandle s)),
        settled := Suc (nextHandle s) # nextHandle s # settled s\<rparr>"
    unfolding deepUpdate_calm [OF c2]
    by (simp add: s1 moduleRecord_def tailTimer_def hotModule_def mt split: option.splits)
  finally show ?thesis .
qed

section \<open>Registration\<close>

lemma truthy_js_or: "truthy (js_or a b) = (truthy a \<or> truthy b)"
  by (simp add: js_or_def)

lemma hotModule_frame:
  "generation (hotModule m s) = generation s" "trace (hotModule m s) = trace s"
  "now (hotModule m s) = now s" "timers (hotModule m s) = timers s"
  "nextTimerId (hotModule m s) = nextTimerId s" "queues (hotModule m s) = queues s"
  "settled (hotModule m s) = settled s" "thens (hotModule m s) = thens s"
  "nextHandle (hotModule m s) = nextHandle s" "microtasks (hotModule m s) = microtasks s"
  "closures (hotModule m s) = closures s" "acceptHandlers (hotModule m s) = acceptHandlers s"
  "statusHandlers (hotModule m s) = statusHandlers s" "nextInstance (hotModule m s) = nextInstance s"
  "dispatched (hotModule m s) = dispatched s" "env (hotModule m s) = env s"
  by (simp_all add: hotModule_def split: option.splits)

lemma makeHotExport_frame:
  "generation (makeHotExport sm m s) = generation s" "hotModules (makeHotExport sm m s) = hotModules s"
  "now (makeHotExport sm m s) = now s" "timers (makeHotExport sm m s) = timers s"
  "nextTimerId (makeHotExport sm m s) = nextTimerId s" "queues (makeHotExport sm m s) = queues s"
  "settled (makeHotExport sm m s) = settled s" "thens (makeHotExport sm m s) = thens s"
  "nextHandle (makeHotExport sm m s) = nextHandle s" "microtasks (makeHotExport sm m s) = microtasks s"
  "closures (makeHotExport sm m s) = closures s" "nextInstance (makeHotExport sm m s) = nextInstance s"
  "dispatched (makeHotExport sm m s) = dispatched s" "env (makeHotExport sm m s) = env s"
  by (simp_all add: makeHotExport_def Let_def loggerWarn_def emit_def split: option.splits)

text \<open>
  A call of \<open>hot\<close> that does not throw, computed.
\<close>

lemma hot_valid:
  assumes "truthy (resolveModuleId sm)"
  shows "hot (Some sm) s =
     (Inr (length (closures s)),
      (makeHotExport sm (resolveModuleId sm) (hotModule (resolveModuleId sm) s))
        \<lparr>trace := trace (makeHotExport sm (resolveModuleId sm) (hotModule (resolveModuleId sm) s))
                   @ [ClearExceptions],
         timers := timers s @ [(nextTimerId s, now s + 100, FailbackFire (resolveModuleId sm))],
         nextTimerId := Suc (nextTimerId s),
         closures := closures s @
           [\<lparr>cl_source = sm, cl_moduleId = resolveModuleId sm,
             cl_failbackTimer = nextTimerId s, firstHotRegistered = False\<rparr>]\<rparr>)"
  using assms
  by (simp add: hot_def Let_def chargeFailbackTimer_def setTimeout_def clearExceptions_def emit_def
      makeHotExport_frame hotModule_frame)

section \<open>Unmounting\<close>

lemma unmountMessage_names: "sublist name (unmountMessage m name)"
proof -
  let ?before = "''React-hot-loader: Detected AppContainer unmount on module '' @ sq @ js_toString m @
    sq @ '' update.'' @ nl @ ''Did you use '' @ dq @ ''hot(''"
  obtain after where "unmountMessage m name = ?before @ name @ after"
    by (simp add: unmountMessage_def)
  then show ?thesis
    by (simp only: sublist_appendI)
qed

section \<open>The tail polls: an invariant\<close>

lemma mismatches_le_polls: "mismatches g ds \<le> polls g ds"
  unfolding mismatches_def polls_def
  by (induction ds) auto

lemma polls_snoc: "polls g (ds @ [(i, cb, obs)]) = polls g ds + (if chainOf cb = Some g then 1 else 0)"
  by (simp add: polls_def)

lemma mismatches_snoc:
  "mismatches g (ds @ [(i, cb, obs)]) = mismatches g ds + (if chainOf cb = Some g \<and> obs \<noteq> g then 1 else 0)"
  by (simp add: mismatches_def)

lemma tailInv_initial: "tailInv 0 [] []"
  by (simp add: tailInv_def tailA_def tailB_def tailC_def polls_def mismatches_def)

lemma tailA_remove: "tailA gen ts ds \<Longrightarrow> tailA gen (filter P ts) ds"
  unfolding tailA_def by auto

lemma tailB_remove: "tailB ts \<Longrightarrow> tailB (filter P ts)"
  unfolding tailB_def by (metis filter_is_subset subsetD)

lemma tailInv_remove: "tailInv gen ts ds \<Longrightarrow> tailInv gen (filter P ts) ds"
  by (simp add: tailInv_def tailA_remove tailB_remove)

lemma tailInv_other:
  assumes "tailInv gen ts ds" and "chainOf cb = None"
  shows "tailInv gen (ts @ [(i, d, cb)]) ds"
proof -
  have "cb \<noteq> TailCheck m g k" for m g k
    using assms(2) by auto
  then have "set (ts @ [(i, d, cb)]) \<inter> {t. \<exists>i d m g k. t = (i, d, TailCheck m g k)}
      = set ts \<inter> {t. \<exists>i d m g k. t = (i, d, TailCheck m g k)}"
    by auto
  then have same: "(i', d', TailCheck m g k) \<in> set (ts @ [(i, d, cb)]) \<longleftrightarrow> (i', d', TailCheck m g k) \<in> set ts"
    for i' d' m g k
    by auto
  from assms(1) show ?thesis
    unfolding tailInv_def tailA_def tailB_def same by simp
qed

lemma tailInv_bump:
  assumes "tailInv gen ts ds"
  shows "tailInv (Suc gen) ts ds"
proof -
  from assms have a: "tailA gen ts ds" and b: "tailB ts" and c: "tailC gen ds"
    by (simp_all add: tailInv_def)
  from a have "tailA (Suc gen) ts ds"
    unfolding tailA_def by (meson le_Suc_eq)
  moreover from c have "tailC (Suc gen) ds"
    unfolding tailC_def by (meson Suc_lessD)
  ultimately show ?thesis
    using b by (simp add: tailInv_def)
qed

lemma tailInv_chain:
  assumes inv: "tailInv gen ts ds" and new: "g \<le> gen" "k < 5" "polls g ds = k" "mismatches g ds = 0"
    and fresh: "\<not> chainPending g ts"
  shows "tailInv gen (ts @ [(i, d, TailCheck m g k)]) ds"
proof -
  from inv have a: "tailA gen ts ds" and b: "tailB ts" and c: "tailC gen ds"
    by (simp_all add: tailInv_def)
  have mem: "x \<in> set (ts @ [(i, d, TailCheck m g k)]) \<longleftrightarrow> x \<in> set ts \<or> x = (i, d, TailCheck m g k)" for x
    by auto
  have "tailA gen (ts @ [(i, d, TailCheck m g k)]) ds"
    unfolding tailA_def mem using a [unfolded tailA_def] new by blast
  moreover have "tailB (ts @ [(i, d, TailCheck m g k)])"
    unfolding tailB_def mem using b [unfolded tailB_def] fresh [unfolded chainPending_def] by blast
  ultimately show ?thesis
    using c by (simp add: tailInv_def)
qed

lemma tailInv_deep:
  assumes "tailInv gen ts ds"
  shows "tailInv (Suc gen) (ts @ [(i, d, TailCheck m (Suc gen) 0)]) ds"
proof -
  from assms have a: "tailA gen ts ds" and c: "tailC gen ds"
    by (simp_all add: tailInv_def)
  have fresh: "\<not> chainPending (Suc gen) ts"
  proof
    assume "chainPending (Suc gen) ts"
    then obtain i d m k where "(i, d, TailCheck m (Suc gen) k) \<in> set ts"
      unfolding chainPending_def by blast
    with a have "Suc gen \<le> gen"
      unfolding tailA_def by blast
    then show False by simp
  qed
  have zero: "polls (Suc gen) ds = 0"
    using c by (simp add: tailC_def)
  then have "mismatches (Suc gen) ds = 0"
    using mismatches_le_polls [of "Suc gen" ds] by simp
  with tailInv_bump [OF assms] fresh zero show ?thesis
    by (intro tailInv_chain) simp_all
qed

lemma tailC_dispatch_other:
  assumes "tailC gen ds" and "chainOf cb = None"
  shows "tailC gen (ds @ [(i, cb, obs)])"
  using assms by (simp add: tailC_def polls_snoc mismatches_snoc)

lemma tailA_dispatch_other:
  assumes "tailA gen ts ds" and "chainOf cb = None"
  shows "tailA gen ts (ds @ [(i, cb, obs)])"
  using assms by (simp add: tailA_def polls_snoc mismatches_snoc)

lemma tailInv_dispatch_other:
  assumes "tailInv gen ts ds" and "chainOf cb = None"
  shows "tailInv gen (filter (\<lambda>t. fst t \<noteq> i) ts) (ds @ [(i, cb, obs)])"
  using tailInv_remove [OF assms(1), of "\<lambda>t. fst t \<noteq> i"] assms(2)
  by (simp add: tailInv_def tailA_dispatch_other tailC_dispatch_other)

lemma tailInv_dispatch_poll:
  assumes inv: "tailInv gen ts ds" and mem: "(i, d, TailCheck m g k) \<in> set ts"
  shows "tailInv gen (filter (\<lambda>t. fst t \<noteq> i) ts) (ds @ [(i, TailCheck m g k, obs)])
         \<and> \<not> chainPending g (filter (\<lambda>t. fst t \<noteq> i) ts)
         \<and> polls g (ds @ [(i, TailCheck m g k, obs)]) = Suc k
         \<and> mismatches g (ds @ [(i, TailCheck m g k, obs)]) = (if obs = g then 0 else 1)
         \<and> g \<le> gen \<and> k < 5"
proof -
  let ?ts = "filter (\<lambda>t. fst t \<noteq> i) ts"
  let ?ds = "ds @ [(i, TailCheck m g k, obs)]"
  from inv have a: "tailA gen ts ds" and b: "tailB ts" and c: "tailC gen ds"
    by (simp_all add: tailInv_def)
  from a mem have facts: "g \<le> gen" "k < 5" "polls g ds = k" "mismatches g ds = 0"
    unfolding tailA_def by blast+
  have gone: "\<not> chainPending g ?ts"
  proof
    assume "chainPending g ?ts"
    then obtain i' d' m' k' where t: "(i', d', TailCheck m' g k') \<in> set ts" "i' \<noteq> i"
      unfolding chainPending_def by auto
    from b t(1) mem have "i' = i"
      unfolding tailB_def by blast
    with t(2) show False by simp
  qed
  have a': "tailA gen ?ts ?ds"
    unfolding tailA_def
  proof (intro allI impI)
    fix i' d' m' g' k'
    assume t: "(i', d', TailCheck m' g' k') \<in> set ?ts"
    then have "chainPending g' ?ts"
      unfolding chainPending_def by blast
    with gone have ne: "g' \<noteq> g" by auto
    from t have "(i', d', TailCheck m' g' k') \<in> set ts" by simp
    with a have "g' \<le> gen \<and> k' < 5 \<and> polls g' ds = k' \<and> mismatches g' ds = 0"
      unfolding tailA_def by blast
    with ne show "g' \<le> gen \<and> k' < 5 \<and> polls g' ?ds = k' \<and> mismatches g' ?ds = 0"
      by (simp add: polls_snoc mismatches_snoc)
  qed
  have c': "tailC gen ?ds"
    unfolding tailC_def
  proof (intro allI conjI impI)
    fix g'
    from c have "polls g' ds \<le> 5" "mismatches g' ds \<le> 1"
      by (simp_all add: tailC_def)
    with facts show "polls g' ?ds \<le> 5" "mismatches g' ?ds \<le> 1"
      by (auto simp add: polls_snoc mismatches_snoc)
  next
    fix g'
    assume "gen < g'"
    with c facts show "polls g' ?ds = 0"
      by (simp add: tailC_def polls_snoc)
  qed
  from a' c' tailB_remove [OF b] have "tailInv gen ?ts ?ds"
    by (simp add: tailInv_def)
  with gone facts show ?thesis
    by (simp add: polls_snoc mismatches_snoc)
qed

section \<open>What the operations leave unchanged\<close>

lemma updateInstances_frame:
  assumes "calm s"
  shows "generation (updateInstances m e s) = generation s"
    "timers (updateInstances m e s) = timers s"
    "nextTimerId (updateInstances m e s) = nextTimerId s"
    "dispatched (updateInstances m e s) = dispatched s"
    "closures (updateInstances m e s) = closures s"
    "now (updateInstances m e s) = now s"
    "env (updateInstances m e s) = env s"
    "nextInstance (updateInstances m e s) = nextInstance s"
    "acceptHandlers (updateInstances m e s) = acceptHandlers s"
    "statusHandlers (updateInstances m e s) = statusHandlers s"
    "moduleRecord (updateInstances m e s) m' = moduleRecord s m'"
    "microtasks (updateInstances m e s) = microtasks s @ (if instanceofError e then [] else [DeepUpdate m])"
  using assms
  by (cases "instanceofError e";
      simp add: updateInstances_error updateInstances_calm hotModule_frame moduleRecord_def hotModule_def
        split: option.splits)+

lemma deepUpdate_frame:
  assumes "calm s"
  shows "generation (deepUpdate m s) = Suc (generation s)"
    "timers (deepUpdate m s) = timers s @ tailTimer s m"
    "nextTimerId (deepUpdate m s) = nextTimerId s + length (tailTimer s m)"
    "dispatched (deepUpdate m s) = dispatched s"
    "closures (deepUpdate m s) = closures s"
    "now (deepUpdate m s) = now s"
    "env (deepUpdate m s) = env s"
    "nextInstance (deepUpdate m s) = nextInstance s"
    "acceptHandlers (deepUpdate m s) = acceptHandlers s"
    "statusHandlers (deepUpdate m s) = statusHandlers s"
    "hotModules (deepUpdate m s) = hotModules s"
    "microtasks (deepUpdate m s) = microtasks s"
    "trace (deepUpdate m s) = trace s @ EnterHotUpdate # map ForceUpdate (instances (moduleRecord s m))"
  by (simp_all add: deepUpdate_calm [OF assms])

lemma tailOK_deepUpdate:
  assumes "calm s" and "tailOK s"
  shows "tailOK (deepUpdate m s)"
proof (cases "trackTailUpdates (env s)")
  case True
  with assms(2) show ?thesis
    by (simp add: tailOK_def deepUpdate_frame [OF assms(1)] tailTimer_def tailInv_deep)
next
  case False
  with assms(2) show ?thesis
    by (simp add: tailOK_def deepUpdate_frame [OF assms(1)] tailTimer_def tailInv_bump)
qed

lemma drainMicrotasks_invariant:
  assumes "calm s" and "deepOnly s" and "P s"
    and deep: "\<And>m s. calm s \<Longrightarrow> P s \<Longrightarrow> P (deepUpdate m s)"
    and frame: "\<And>ms s. P s \<Longrightarrow> P (s\<lparr>microtasks := ms\<rparr>)"
  shows "P (drainMicrotasks s)"
  using assms(1-3)
proof (induction s rule: drainMicrotasks.induct)
  case (1 s)
  show ?case
  proof (cases "microtasks s")
    case Nil
    with "1.prems" show ?thesis
      by (simp add: drainMicrotasks_Nil)
  next
    case (Cons cb rest)
    with "1.prems"(2) obtain m where cb: "cb = DeepUpdate m"
      by (cases cb) (simp_all add: deepOnly_def)
    let ?s1 = "s\<lparr>microtasks := rest\<rparr>"
    have c1: "calm ?s1"
      using "1.prems"(1) by (simp add: calm_def)
    have p1: "P ?s1"
      using "1.prems"(3) by (rule frame)
    have c2: "calm (runCallback cb ?s1)"
      using c1 by (rule calm_runCallback)
    have "microtasks (runCallback cb ?s1) = rest"
      using microtasks_runCallback [OF c1, of cb] by simp
    with "1.prems"(2) Cons have d2: "deepOnly (runCallback cb ?s1)"
      by (simp add: deepOnly_def)
    have p2: "P (runCallback cb ?s1)"
      using deep [OF c1 p1, of m] by (simp add: cb)
    from "1.IH" [OF Cons c2 d2 p2] show ?thesis
      by (simp add: drainMicrotasks_Cons [OF Cons])
  qed
qed

lemma tailOK_drainMicrotasks:
  assumes "calm s" and "deepOnly s" and "tailOK s"
  shows "tailOK (drainMicrotasks s)"
  using assms
proof (rule drainMicrotasks_invariant)
  show "tailOK (deepUpdate m s)" if "calm s" "tailOK s" for m s
    using that by (rule tailOK_deepUpdate)
  show "tailOK (s\<lparr>microtasks := ms\<rparr>)" if "tailOK s" for ms s
    using that by (simp add: tailOK_def)
qed

section \<open>Timer ids: an invariant\<close>

lemma timersInv_initial: "timersInv 0 [] [] []"
  by (simp add: timersInv_def)

lemma timersInv_remove:
  assumes "timersInv nxt ts ds cs"
  shows "timersInv nxt (filter P ts) ds cs"
proof -
  have "distinct (map fst (filter P ts))" if "distinct (map fst ts)"
    using that by (rule distinct_map_filter)
  moreover have "fst ` set (filter P ts) \<inter> fst ` set ds = {}" if "fst ` set ts \<inter> fst ` set ds = {}"
  proof -
    have "fst ` set (filter P ts) \<subseteq> fst ` set ts"
      by (rule image_mono) simp
    with that show ?thesis
      by (meson disjoint_iff subsetD)
  qed
  ultimately show ?thesis
    using assms by (simp add: timersInv_def)
qed

lemma timersInv_fresh:
  assumes "timersInv nxt ts ds cs"
  shows "nxt \<notin> fst ` set ts" "nxt \<notin> fst ` set ds" "nxt \<notin> set cs"
proof -
  from assms have b: "\<forall>t \<in> set ts. fst t < nxt" "\<forall>d \<in> set ds. fst d < nxt" "\<forall>c \<in> set cs. c < nxt"
    by (simp_all add: timersInv_def)
  show "nxt \<notin> fst ` set ts"
  proof
    assume "nxt \<in> fst ` set ts"
    then obtain t where "t \<in> set ts" "fst t = nxt" by (auto simp add: image_iff)
    with b(1) show False by (metis less_irrefl)
  qed
  show "nxt \<notin> fst ` set ds"
  proof
    assume "nxt \<in> fst ` set ds"
    then obtain t where "t \<in> set ds" "fst t = nxt" by (auto simp add: image_iff)
    with b(2) show False by (metis less_irrefl)
  qed
  show "nxt \<notin> set cs"
  proof
    assume "nxt \<in> set cs"
    with b(3) show False by (metis less_irrefl)
  qed
qed

lemma timersInv_bound:
  assumes "timersInv nxt ts ds cs"
  shows "\<forall>t \<in> set ts. fst t < Suc nxt" "\<forall>d \<in> set ds. fst d < Suc nxt" "\<forall>c \<in> set cs. c < Suc nxt"
proof -
  from assms have b: "\<forall>t \<in> set ts. fst t < nxt" "\<forall>d \<in> set ds. fst d < nxt" "\<forall>c \<in> set cs. c < nxt"
    by (simp_all add: timersInv_def)
  from b(1) show "\<forall>t \<in> set ts. fst t < Suc nxt" by (meson less_Suc_eq)
  from b(2) show "\<forall>d \<in> set ds. fst d < Suc nxt" by (meson less_Suc_eq)
  from b(3) show "\<forall>c \<in> set cs. c < Suc nxt" by (meson less_Suc_eq)
qed

lemma timersInv_add:
  assumes "timersInv nxt ts ds cs"
  shows "timersInv (Suc nxt) (ts @ [(nxt, d, cb)]) ds cs"
  using assms timersInv_fresh [OF assms] timersInv_bound [OF assms]
  by (simp add: timersInv_def)

lemma timersInv_arm:
  assumes "timersInv nxt ts ds cs"
  shows "timersInv (Suc nxt) (ts @ [(nxt, d, cb)]) ds (cs @ [nxt])"
  using assms timersInv_fresh [OF assms] timersInv_bound [OF assms]
  by (simp add: timersInv_def)

lemma timersInv_dispatch:
  assumes "timersInv nxt ts ds cs" and "(i, d, cb) \<in> set ts"
  shows "timersInv nxt (filter (\<lambda>t. fst t \<noteq> i) ts) (ds @ [(i, cb, obs)]) cs"
proof -
  let ?ts = "filter (\<lambda>t. fst t \<noteq> i) ts"
  from assms(2) have mem: "i \<in> fst ` set ts"
    by force
  from assms have "fst (i, d, cb) < nxt"
    unfolding timersInv_def by blast
  then have lt: "i < nxt" by simp
  from assms(1) have "fst ` set ts \<inter> fst ` set ds = {}"
    by (simp add: timersInv_def)
  with mem have nd: "i \<notin> fst ` set ds"
    by blast
  note i = lt nd
  have notin: "i \<notin> fst ` set ?ts"
    by auto
  from timersInv_remove [OF assms(1), of "\<lambda>t. fst t \<noteq> i"]
  have r: "timersInv nxt ?ts ds cs" .
  then have disj: "fst ` set ?ts \<inter> fst ` set ds = {}"
    by (simp add: timersInv_def)
  with notin have "fst ` set ?ts \<inter> fst ` set (ds @ [(i, cb, obs)]) = {}"
    by auto
  with r i show ?thesis
    by (simp add: timersInv_def)
qed

lemma earliest_mem: "earliest ts = Some t \<Longrightarrow> t \<in> set ts"
proof (induction ts arbitrary: t)
  case Nil
  then show ?case by simp
next
  case (Cons a ts)
  show ?case
  proof (cases "earliest ts")
    case None
    with Cons.prems show ?thesis by simp
  next
    case (Some u)
    with Cons.IH have "u \<in> set ts" by simp
    with Cons.prems Some show ?thesis
      by (auto split: if_splits)
  qed
qed

section \<open>The invariants along the event loop\<close>

lemma tailOK_cong:
  "generation s' = generation s \<Longrightarrow> timers s' = timers s \<Longrightarrow> dispatched s' = dispatched s \<Longrightarrow>
   tailOK s' = tailOK s"
  by (simp add: tailOK_def)

lemma timersOK_cong:
  "nextTimerId s' = nextTimerId s \<Longrightarrow> timers s' = timers s \<Longrightarrow> dispatched s' = dispatched s \<Longrightarrow>
   map cl_failbackTimer (closures s') = map cl_failbackTimer (closures s) \<Longrightarrow>
   timersOK s' = timersOK s"
  by (simp add: timersOK_def)

lemma timersOK_deepUpdate:
  assumes "calm s" and "timersOK s"
  shows "timersOK (deepUpdate m s)"
  using assms(2)
  by (simp add: timersOK_def deepUpdate_frame [OF assms(1)] tailTimer_def timersInv_add)

lemma timersOK_drainMicrotasks:
  assumes "calm s" and "deepOnly s" and "timersOK s"
  shows "timersOK (drainMicrotasks s)"
  using assms
proof (rule drainMicrotasks_invariant)
  show "timersOK (deepUpdate m s)" if "calm s" "timersOK s" for m s
    using that by (rule timersOK_deepUpdate)
  show "timersOK (s\<lparr>microtasks := ms\<rparr>)" if "timersOK s" for ms s
    using that by (simp add: timersOK_def)
qed

lemma clearExceptions_frame:
  "generation (clearExceptions s) = generation s" "timers (clearExceptions s) = timers s"
  "nextTimerId (clearExceptions s) = nextTimerId s" "dispatched (clearExceptions s) = dispatched s"
  "closures (clearExceptions s) = closures s" "microtasks (clearExceptions s) = microtasks s"
  "queues (clearExceptions s) = queues s" "thens (clearExceptions s) = thens s"
  "hotModules (clearExceptions s) = hotModules s" "env (clearExceptions s) = env s"
  "trace (clearExceptions s) = trace s @ [ClearExceptions]"
  by (simp_all add: clearExceptions_def emit_def)

lemma statusHandlers_frame:
  assumes "calm s"
  shows "generation (fold (\<lambda>m. statusHandler m st) ms s) = generation s
    \<and> timers (fold (\<lambda>m. statusHandler m st) ms s) = timers s
    \<and> nextTimerId (fold (\<lambda>m. statusHandler m st) ms s) = nextTimerId s
    \<and> dispatched (fold (\<lambda>m. statusHandler m st) ms s) = dispatched s
    \<and> closures (fold (\<lambda>m. statusHandler m st) ms s) = closures s
    \<and> (deepOnly s \<longrightarrow> deepOnly (fold (\<lambda>m. statusHandler m st) ms s))"
  using assms
proof (induction ms arbitrary: s)
  case Nil
  then show ?case by simp
next
  case (Cons m ms)
  let ?s1 = "statusHandler m st s"
  have c0: "calm (clearExceptions s)"
    using Cons.prems by (simp add: clearExceptions_def emit_def calm_def)
  have c1: "calm ?s1"
    using Cons.prems c0 by (simp add: statusHandler_def calm_updateInstances)
  have f: "generation ?s1 = generation s" "timers ?s1 = timers s" "nextTimerId ?s1 = nextTimerId s"
    "dispatched ?s1 = dispatched s" "closures ?s1 = closures s"
    by (simp_all add: statusHandler_def updateInstances_frame [OF c0] clearExceptions_frame)
  have d: "deepOnly ?s1" if "deepOnly s"
    using that
    by (simp add: statusHandler_def updateInstances_frame [OF c0] deepOnly_def clearExceptions_frame)
  from Cons.IH [OF c1] f d show ?case
    by simp
qed

lemma hot_frame:
  "generation (snd (hot arg s)) = generation s \<and> dispatched (snd (hot arg s)) = dispatched s
   \<and> microtasks (snd (hot arg s)) = microtasks s \<and> now (snd (hot arg s)) = now s
   \<and> queues (snd (hot arg s)) = queues s \<and> thens (snd (hot arg s)) = thens s"
proof (cases arg)
  case None
  then show ?thesis by (simp add: hot_def)
next
  case (Some sm)
  show ?thesis
  proof (cases "truthy (resolveModuleId sm)")
    case True
    show ?thesis
      by (simp add: Some hot_valid [OF True] makeHotExport_frame hotModule_frame)
  next
    case False
    then show ?thesis
      by (simp add: Some hot_def Let_def consoleError_def emit_def)
  qed
qed

lemma hot_timers:
  "(timers (snd (hot arg s)) = timers s \<and> nextTimerId (snd (hot arg s)) = nextTimerId s
      \<and> closures (snd (hot arg s)) = closures s)
   \<or> (\<exists>d cb c. timers (snd (hot arg s)) = timers s @ [(nextTimerId s, d, cb)] \<and> chainOf cb = None
      \<and> nextTimerId (snd (hot arg s)) = Suc (nextTimerId s)
      \<and> closures (snd (hot arg s)) = closures s @ [c] \<and> cl_failbackTimer c = nextTimerId s)"
proof (cases arg)
  case None
  then show ?thesis by (simp add: hot_def)
next
  case (Some sm)
  show ?thesis
  proof (cases "truthy (resolveModuleId sm)")
    case True
    show ?thesis
      by (rule disjI2) (simp add: Some hot_valid [OF True])
  next
    case False
    then show ?thesis
      by (simp add: Some hot_def Let_def consoleError_def emit_def)
  qed
qed

lemma exportWrapper_frame:
  "generation (snd (exportWrapper w c ps s)) = generation s"
  "dispatched (snd (exportWrapper w c ps s)) = dispatched s"
  "microtasks (snd (exportWrapper w c ps s)) = microtasks s"
  "nextTimerId (snd (exportWrapper w c ps s)) = nextTimerId s"
  "now (snd (exportWrapper w c ps s)) = now s"
  "map cl_failbackTimer (closures (snd (exportWrapper w c ps s))) = map cl_failbackTimer (closures s)"
  "timers (snd (exportWrapper w c ps s)) =
     (if w < length (closures s)
      then filter (\<lambda>t. fst t \<noteq> cl_failbackTimer (closures s ! w)) (timers s) else timers s)"
  by (simp_all add: exportWrapper_def Let_def clearFailbackTimer_def clearTimeout_def register_def
      emit_def map_update list_update_same_conv)

lemma lifecycle_frame:
  "generation (componentDidMount cls i s) = generation s"
  "dispatched (componentDidMount cls i s) = dispatched s"
  "microtasks (componentDidMount cls i s) = microtasks s"
  "nextTimerId (componentDidMount cls i s) = nextTimerId s"
  "timers (componentDidMount cls i s) = timers s"
  "closures (componentDidMount cls i s) = closures s"
  "generation (componentWillUnmount cls i s) = generation s"
  "dispatched (componentWillUnmount cls i s) = dispatched s"
  "microtasks (componentWillUnmount cls i s) = microtasks s"
  "nextTimerId (componentWillUnmount cls i s) = nextTimerId s"
  "timers (componentWillUnmount cls i s) = timers s"
  "closures (componentWillUnmount cls i s) = closures s"
  by (simp_all add: componentDidMount_def componentWillUnmount_def Let_def setInstances_def
      loggerError_def emit_def)

lemma fireTimer_cases:
  "fireTimer s = s
   \<or> (\<exists>i d cb. (i, d, cb) \<in> set (timers s) \<and> d \<le> now s \<and>
        fireTimer s = runCallback cb
          (s\<lparr>timers := filter (\<lambda>t. fst t \<noteq> i) (timers s),
             dispatched := dispatched s @ [(i, cb, generation s)]\<rparr>))"
proof (cases "earliest (timers s)")
  case None
  then show ?thesis by (simp add: fireTimer_def)
next
  case (Some t)
  obtain i d cb where t: "t = (i, d, cb)" by (cases t)
  from earliest_mem [OF Some] have "(i, d, cb) \<in> set (timers s)"
    by (simp add: t)
  then show ?thesis
    by (cases "d \<le> now s") (auto simp add: fireTimer_def Some t)
qed

lemma deepOnly_handleEvent:
  assumes "calm s" and "deepOnly s"
  shows "deepOnly (handleEvent ev s)"
proof (cases ev)
  case FireTimer
  from fireTimer_cases [of s] show ?thesis
  proof (elim disjE exE conjE)
    assume "fireTimer s = s"
    with assms show ?thesis by (simp add: FireTimer)
  next
    fix i d cb
    let ?s1 = "s\<lparr>timers := filter (\<lambda>t. fst t \<noteq> i) (timers s),
             dispatched := dispatched s @ [(i, cb, generation s)]\<rparr>"
    assume f: "fireTimer s = runCallback cb ?s1"
    have "calm ?s1" using assms(1) by (simp add: calm_def)
    from microtasks_runCallback [OF this, of cb] assms(2) show ?thesis
      by (simp add: FireTimer f deepOnly_def)
  qed
next
  case (Accept m e)
  with assms show ?thesis
    by (simp add: deepOnly_def updateInstances_frame [OF assms(1)])
next
  case (Status st)
  with assms statusHandlers_frame [OF assms(1), of st "statusHandlers s"] show ?thesis
    by simp
qed (use assms in \<open>simp_all add: deepOnly_def hot_frame exportWrapper_frame lifecycle_frame\<close>)

lemma tailOK_runCallback_fired:
  assumes c: "calm s" and ok: "tailOK s" and mem: "(i, d, cb) \<in> set (timers s)"
  shows "tailOK (runCallback cb
          (s\<lparr>timers := filter (\<lambda>t. fst t \<noteq> i) (timers s),
             dispatched := dispatched s @ [(i, cb, generation s)]\<rparr>))"
proof -
  let ?s1 = "s\<lparr>timers := filter (\<lambda>t. fst t \<noteq> i) (timers s),
             dispatched := dispatched s @ [(i, cb, generation s)]\<rparr>"
  have c1: "calm ?s1" using c by (simp add: calm_def)
  show ?thesis
  proof (cases cb)
    case (FailbackFire m)
    with ok have "tailOK ?s1"
      by (simp add: tailOK_def tailInv_dispatch_other)
    then show ?thesis
      by (simp add: FailbackFire Let_def logException_def loggerError_def emit_def tailOK_def)
  next
    case (DeepUpdate m)
    with ok have "tailOK ?s1"
      by (simp add: tailOK_def tailInv_dispatch_other)
    with c1 show ?thesis
      by (simp add: DeepUpdate tailOK_deepUpdate)
  next
    case (TailCheck m g k)
    from ok mem have inv: "tailInv (generation s) (timers s) (dispatched s)"
      and mem': "(i, d, TailCheck m g k) \<in> set (timers s)"
      by (simp_all add: tailOK_def TailCheck)
    note facts = tailInv_dispatch_poll [OF inv mem', of "generation s"]
    from facts have ok1: "tailOK ?s1"
      by (simp add: tailOK_def TailCheck)
    show ?thesis
    proof (cases "generation s = g")
      case False
      let ?s2 = "loggerWarn tailWarning ?s1"
      have c2: "calm ?s2" using c1 by (simp add: loggerWarn_def emit_def calm_def)
      have "tailOK ?s2" using ok1 by (simp add: tailOK_def loggerWarn_def emit_def)
      from tailOK_deepUpdate [OF c2 this] False show ?thesis
        by (simp add: TailCheck getHotGeneration_def)
    next
      case True
      show ?thesis
      proof (cases "Suc k < 5")
        case False
        with True ok1 show ?thesis
          by (simp add: TailCheck getHotGeneration_def)
      next
        case less: True
        from facts True have "tailInv (generation s) (timers ?s1) (dispatched ?s1)"
          "g \<le> generation s" "polls g (dispatched ?s1) = Suc k" "mismatches g (dispatched ?s1) = 0"
          "\<not> chainPending g (timers ?s1)"
          by (simp_all add: TailCheck)
        from tailInv_chain [OF this(1,2) less this(3,4,5)] True less show ?thesis
          by (simp add: TailCheck getHotGeneration_def checkTailUpdates_def setTimeout_def tailOK_def)
      qed
    qed
  qed
qed

lemma tailOK_handleEvent:
  assumes "calm s" and "tailOK s"
  shows "tailOK (handleEvent ev s)"
proof (cases ev)
  case FireTimer
  from fireTimer_cases [of s] show ?thesis
  proof (elim disjE exE conjE)
    assume "fireTimer s = s"
    with assms show ?thesis by (simp add: FireTimer)
  next
    fix i d cb
    assume "(i, d, cb) \<in> set (timers s)" and
      "fireTimer s = runCallback cb
          (s\<lparr>timers := filter (\<lambda>t. fst t \<noteq> i) (timers s),
             dispatched := dispatched s @ [(i, cb, generation s)]\<rparr>)"
    with tailOK_runCallback_fired [OF assms this(1)] show ?thesis
      by (simp add: FireTimer)
  qed
next
  case (CallHot arg)
  from hot_timers [of arg s] assms(2) show ?thesis
    by (auto simp add: CallHot tailOK_def hot_frame tailInv_other)
next
  case (CallWrapper w c ps)
  with assms(2) show ?thesis
    by (simp add: tailOK_def exportWrapper_frame tailInv_remove)
next
  case (Accept m e)
  with assms show ?thesis
    by (simp add: tailOK_def updateInstances_frame [OF assms(1)])
next
  case (Status st)
  with assms(2) statusHandlers_frame [OF assms(1), of st "statusHandlers s"] show ?thesis
    by (simp add: tailOK_def)
qed (use assms in \<open>simp_all add: tailOK_def lifecycle_frame\<close>)

lemma timersOK_runCallback_fired:
  assumes c: "calm s" and ok: "timersOK s" and mem: "(i, d, cb) \<in> set (timers s)"
  shows "timersOK (runCallback cb
          (s\<lparr>timers := filter (\<lambda>t. fst t \<noteq> i) (timers s),
             dispatched := dispatched s @ [(i, cb, generation s)]\<rparr>))"
proof -
  let ?s1 = "s\<lparr>timers := filter (\<lambda>t. fst t \<noteq> i) (timers s),
             dispatched := dispatched s @ [(i, cb, generation s)]\<rparr>"
  have c1: "calm ?s1" using c by (simp add: calm_def)
  from ok mem have ok1: "timersOK ?s1"
    by (simp add: timersOK_def timersInv_dispatch)
  show ?thesis
  proof (cases cb)
    case (FailbackFire m)
    with ok1 show ?thesis
      by (simp add: Let_def logException_def loggerError_def emit_def timersOK_def)
  next
    case (DeepUpdate m)
    with c1 ok1 show ?thesis
      by (simp add: timersOK_deepUpdate)
  next
    case (TailCheck m g k)
    let ?s2 = "loggerWarn tailWarning ?s1"
    have c2: "calm ?s2" using c1 by (simp add: loggerWarn_def emit_def calm_def)
    have "timersOK ?s2" using ok1 by (simp add: timersOK_def loggerWarn_def emit_def)
    from timersOK_deepUpdate [OF c2 this] ok1 show ?thesis
      by (simp add: TailCheck checkTailUpdates_def setTimeout_def)
         (simp add: timersOK_def timersInv_add)
  qed
qed

lemma timersOK_handleEvent:
  assumes "calm s" and "timersOK s"
  shows "timersOK (handleEvent ev s)"
proof (cases ev)
  case FireTimer
  from fireTimer_cases [of s] show ?thesis
  proof (elim disjE exE conjE)
    assume "fireTimer s = s"
    with assms show ?thesis by (simp add: FireTimer)
  next
    fix i d cb
    assume "(i, d, cb) \<in> set (timers s)" and
      "fireTimer s = runCallback cb
          (s\<lparr>timers := filter (\<lambda>t. fst t \<noteq> i) (timers s),
             dispatched := dispatched s @ [(i, cb, generation s)]\<rparr>)"
    with timersOK_runCallback_fired [OF assms this(1)] show ?thesis
      by (simp add: FireTimer)
  qed
next
  case (CallHot arg)
  from hot_timers [of arg s] assms(2) show ?thesis
    by (auto simp add: CallHot timersOK_def hot_frame timersInv_arm)
next
  case (CallWrapper w c ps)
  with assms(2) show ?thesis
    by (simp add: timersOK_def exportWrapper_frame timersInv_remove)
next
  case (Accept m e)
  with assms show ?thesis
    by (simp add: timersOK_def updateInstances_frame [OF assms(1)])
next
  case (Status st)
  with assms(2) statusHandlers_frame [OF assms(1), of st "statusHandlers s"] show ?thesis
    by (simp add: timersOK_def)
qed (use assms in \<open>simp_all add: timersOK_def lifecycle_frame\<close>)

lemma sound_macrotask:
  assumes "sound s"
  shows "sound (macrotask ev s)"
proof -
  from assms have c: "calm s" and d: "deepOnly s" and t: "tailOK s" and i: "timersOK s"
    by (simp_all add: sound_def quiescent_def deepOnly_def)
  let ?s1 = "handleEvent ev s"
  have c1: "calm ?s1" using c by (rule calm_handleEvent)
  have d1: "deepOnly ?s1" using c d by (rule deepOnly_handleEvent)
  have t1: "tailOK ?s1" using c t by (rule tailOK_handleEvent)
  have i1: "timersOK ?s1" using c i by (rule timersOK_handleEvent)
  show ?thesis
    unfolding sound_def macrotask_def
    using quiescent_drainMicrotasks [OF c1] tailOK_drainMicrotasks [OF c1 d1 t1]
      timersOK_drainMicrotasks [OF c1 d1 i1]
    by simp
qed

lemma sound_run: "sound s \<Longrightarrow> sound (run evs s)"
  unfolding run_def by (induction evs arbitrary: s) (simp_all add: sound_macrotask)

lemma sound_initial: "sound (initial h)"
  by (simp add: sound_def quiescent_initial tailOK_def timersOK_def initial_fields tailInv_initial
      timersInv_initial)

section \<open>Concrete runs\<close>

lemmas eval_defs =
  run_def macrotask_def mountedTwice_def appModule_def appComponent_def appHoc_def devHost_def initial_def
  hot_def Let_def resolveModuleId_def js_or_def hotModule_def makeHotExport_def clearExceptions_def
  emit_def chargeFailbackTimer_def setTimeout_def exportWrapper_def clearFailbackTimer_def
  clearTimeout_def register_def getComponentDisplayName_def createHoc_def componentDidMount_def
  setInstances_def moduleRecord_def drainMicrotasks.simps updateInstances_def runInRequireQueue_def
  enqueue_def setQueue_def processQueue.simps reloadTask_def requireIndirect_def settle_def
  then_handle_def deepUpdate_def runInRenderQueue_def renderTask_def enterHotUpdate_def
  getHotGeneration_def fold_forceUpdate checkTailUpdates_def unstable_batchedUpdates_def
  fireTimer_def loggerWarn_def consoleError_def

lemma mountedTwice_state:
  "run mountedTwice (initial h) =
     (initial h)
       \<lparr>hotModules := [JStr ''./src/App.js'' \<mapsto> \<lparr>instances = [0, 1], updateTimeout = 0\<rparr>],
        trace := [ClearExceptions, Register appComponent ''App'' ''RHL./src/App.js''],
        nextTimerId := 1,
        closures := [\<lparr>cl_source = appModule, cl_moduleId = JStr ''./src/App.js'',
                      cl_failbackTimer = 0, firstHotRegistered = True\<rparr>],
        acceptHandlers := [JStr ''./src/App.js''],
        statusHandlers := [JStr ''./src/App.js''],
        nextInstance := 2\<rparr>"
  by (simp add: eval_defs)

lemma mountedTwice_fields:
  "instances (moduleRecord (run mountedTwice (initial h)) (JStr ''./src/App.js'')) = [0, 1]"
  "moduleRecord (run mountedTwice (initial h)) (JStr ''./src/Other.js'') = \<lparr>instances = [], updateTimeout = 0\<rparr>"
  "trace (run mountedTwice (initial h)) = [ClearExceptions, Register appComponent ''App'' ''RHL./src/App.js'']"
  "generation (run mountedTwice (initial h)) = 0"
  "timers (run mountedTwice (initial h)) = []"
  "acceptHandlers (run mountedTwice (initial h)) = [JStr ''./src/App.js'']"
  "statusHandlers (run mountedTwice (initial h)) = [JStr ''./src/App.js'']"
  "env (run mountedTwice (initial h)) = h"
  "nextTimerId (run mountedTwice (initial h)) = 1"
  "now (run mountedTwice (initial h)) = 0"
  by (simp_all add: mountedTwice_state initial_fields moduleRecord_def)

lemma quiescent_mountedTwice: "quiescent (run mountedTwice (initial h))"
  using quiescent_initial by (rule quiescent_run)

section \<open>The function that hot returns: preliminaries\<close>

lemma exportWrapper_registered:
  assumes "w < length (closures s)" and "firstHotRegistered (closures s ! w)"
  shows "trace (snd (exportWrapper w c ps s)) = trace s"
    "closures (snd (exportWrapper w c ps s)) = closures s"
  using assms
  by (simp_all add: exportWrapper_def Let_def clearFailbackTimer_def clearTimeout_def)

lemma exportWrapper_first:
  assumes "w < length (closures s)" and "\<not> firstHotRegistered (closures s ! w)"
  shows "trace (snd (exportWrapper w c ps s)) =
      trace s @ [Register c (getComponentDisplayName c) (''RHL'' @ js_toString (cl_moduleId (closures s ! w)))]"
    "closures (snd (exportWrapper w c ps s)) = (closures s)[w := (closures s ! w)\<lparr>firstHotRegistered := True\<rparr>]"
  using assms
  by (simp_all add: exportWrapper_def Let_def clearFailbackTimer_def clearTimeout_def register_def emit_def)

lemma invokeAll_registered:
  assumes "w < length (closures s)" and "firstHotRegistered (closures s ! w)"
  shows "trace (invokeAll w calls s) = trace s"
  using assms
proof (induction calls arbitrary: s)
  case Nil
  then show ?case by (simp add: invokeAll_def)
next
  case (Cons call calls)
  let ?s1 = "snd (exportWrapper w (fst call) (snd call) s)"
  from exportWrapper_registered [OF Cons.prems] have
    "trace ?s1 = trace s" "closures ?s1 = closures s"
    by simp_all
  with Cons.IH [of ?s1] Cons.prems show ?case
    by (simp add: invokeAll_def)
qed

section \<open>The instance registry and the generation counter along the event loop\<close>

lemma registryOK_cong:
  "(\<And>m. moduleRecord s' m = moduleRecord s m) \<Longrightarrow> nextInstance s' = nextInstance s \<Longrightarrow>
   registryOK s' = registryOK s"
  by (simp add: registryOK_def)

lemma registryOK_initial: "registryOK (initial h)"
  by (simp add: registryOK_def moduleRecord_def initial_fields)

lemma makeHotExport_registry:
  "moduleRecord (makeHotExport sm m s) m' = moduleRecord s m'"
  by (simp add: moduleRecord_def makeHotExport_frame)

lemma hot_registry:
  "moduleRecord (snd (hot arg s)) m = moduleRecord s m" "nextInstance (snd (hot arg s)) = nextInstance s"
proof -
  have "moduleRecord (snd (hot arg s)) m = moduleRecord s m \<and> nextInstance (snd (hot arg s)) = nextInstance s"
  proof (cases arg)
    case None
    then show ?thesis by (simp add: hot_def)
  next
    case (Some sm)
    show ?thesis
    proof (cases "truthy (resolveModuleId sm)")
      case True
      have "moduleRecord (snd (hot (Some sm) s)) m =
          moduleRecord (makeHotExport sm (resolveModuleId sm) (hotModule (resolveModuleId sm) s)) m"
        by (simp add: hot_valid [OF True] moduleRecord_def)
      then show ?thesis
        by (simp add: Some makeHotExport_registry moduleRecord_hotModule hot_valid [OF True]
            makeHotExport_frame hotModule_frame)
    next
      case False
      then show ?thesis
        by (simp add: Some hot_def Let_def consoleError_def emit_def moduleRecord_def)
    qed
  qed
  then show "moduleRecord (snd (hot arg s)) m = moduleRecord s m"
    "nextInstance (snd (hot arg s)) = nextInstance s"
    by simp_all
qed

lemma exportWrapper_registry:
  "moduleRecord (snd (exportWrapper w c ps s)) m = moduleRecord s m"
  "nextInstance (snd (exportWrapper w c ps s)) = nextInstance s"
  by (simp_all add: exportWrapper_def Let_def clearFailbackTimer_def clearTimeout_def register_def
      emit_def moduleRecord_def)

lemma mount_registry:
  "instances (moduleRecord (componentDidMount cls i s) m) =
     (if m = hoc_moduleId cls then instances (moduleRecord s m) @ [i] else instances (moduleRecord s m))"
  "nextInstance (componentDidMount cls i s) = nextInstance s"
  by (simp_all add: componentDidMount_def setInstances_def moduleRecord_def)

lemma unmount_registry:
  "instances (moduleRecord (componentWillUnmount cls i s) m) =
     (if m = hoc_moduleId cls then filter (\<lambda>a. a \<noteq> i) (instances (moduleRecord s m))
      else instances (moduleRecord s m))"
  "nextInstance (componentWillUnmount cls i s) = nextInstance s"
  by (simp_all add: componentWillUnmount_def Let_def setInstances_def moduleRecord_def loggerError_def
      emit_def)

lemma statusHandlers_registry:
  assumes "calm s"
  shows "moduleRecord (fold (\<lambda>m. statusHandler m st) ms s) m' = moduleRecord s m'
    \<and> nextInstance (fold (\<lambda>m. statusHandler m st) ms s) = nextInstance s"
  using assms
proof (induction ms arbitrary: s)
  case Nil
  then show ?case by simp
next
  case (Cons m ms)
  let ?s1 = "statusHandler m st s"
  have c0: "calm (clearExceptions s)"
    using Cons.prems by (simp add: calm_def clearExceptions_frame)
  have c1: "calm ?s1"
    using Cons.prems c0 by (simp add: statusHandler_def calm_updateInstances)
  have "moduleRecord ?s1 m' = moduleRecord s m'" "nextInstance ?s1 = nextInstance s"
    by (simp_all add: statusHandler_def updateInstances_frame [OF c0])
       (simp_all add: moduleRecord_def clearExceptions_frame clearExceptions_def emit_def)
  with Cons.IH [OF c1] show ?case
    by simp
qed

lemma runCallback_registry:
  assumes "calm s"
  shows "hotModules (runCallback cb s) = hotModules s \<and> nextInstance (runCallback cb s) = nextInstance s"
proof (cases cb)
  case (FailbackFire m)
  then show ?thesis
    by (simp add: Let_def logException_def loggerError_def emit_def)
next
  case (DeepUpdate m)
  then show ?thesis
    by (simp add: deepUpdate_frame [OF assms])
next
  case (TailCheck m g k)
  let ?s1 = "loggerWarn tailWarning s"
  have c1: "calm ?s1"
    using assms by (simp add: loggerWarn_def emit_def calm_def)
  have "hotModules (deepUpdate m ?s1) = hotModules s" "nextInstance (deepUpdate m ?s1) = nextInstance s"
    unfolding deepUpdate_frame [OF c1] by (simp_all add: loggerWarn_def emit_def)
  then show ?thesis
    by (simp add: TailCheck checkTailUpdates_def setTimeout_def)
qed

lemma moduleRecord_nextInstance: "moduleRecord (s\<lparr>nextInstance := n\<rparr>) m = moduleRecord s m"
  by (simp add: moduleRecord_def)

lemma registryOK_handleEvent:
  assumes "calm s" and "registryOK s"
  shows "registryOK (handleEvent ev s)"
proof (cases ev)
  case FireTimer
  from fireTimer_cases [of s] show ?thesis
  proof (elim disjE exE conjE)
    assume "fireTimer s = s"
    with assms show ?thesis by (simp add: FireTimer)
  next
    fix i d cb
    let ?s1 = "s\<lparr>timers := filter (\<lambda>t. fst t \<noteq> i) (timers s),
             dispatched := dispatched s @ [(i, cb, generation s)]\<rparr>"
    assume f: "fireTimer s = runCallback cb ?s1"
    have "calm ?s1" using assms(1) by (simp add: calm_def)
    from runCallback_registry [OF this, of cb] assms(2) show ?thesis
      by (simp add: FireTimer f registryOK_def moduleRecord_def)
  qed
next
  case (CallHot arg)
  with assms(2) show ?thesis
    by (simp add: registryOK_def hot_registry)
next
  case (CallWrapper w c ps)
  with assms(2) show ?thesis
    by (simp add: registryOK_def exportWrapper_registry)
next
  case (Mount cls)
  let ?s1 = "componentDidMount cls (nextInstance s) (s\<lparr>nextInstance := Suc (nextInstance s)\<rparr>)"
  have old: "distinct (instances (moduleRecord s m))"
    "\<And>i. i \<in> set (instances (moduleRecord s m)) \<Longrightarrow> i < nextInstance s" for m
    using assms(2) by (simp_all add: registryOK_def)
  have fresh: "nextInstance s \<notin> set (instances (moduleRecord s m))" for m
    using old(2) [of "nextInstance s" m] by auto
  have ins: "instances (moduleRecord ?s1 m) =
      (if m = hoc_moduleId cls then instances (moduleRecord s m) @ [nextInstance s]
       else instances (moduleRecord s m))" for m
    by (simp add: mount_registry moduleRecord_nextInstance)
  have nxt: "nextInstance ?s1 = Suc (nextInstance s)"
    by (simp add: mount_registry)
  have "distinct (instances (moduleRecord ?s1 m))" for m
    using old(1) [of m] fresh [of m] by (cases "m = hoc_moduleId cls") (simp_all add: ins)
  moreover have "i < nextInstance ?s1" if "i \<in> set (instances (moduleRecord ?s1 m))" for i m
    using that old(2) [of i m] by (auto simp add: ins nxt less_Suc_eq split: if_splits)
  ultimately show ?thesis
    unfolding Mount registryOK_def handleEvent.simps by blast
next
  case (Unmount cls i)
  with assms(2) show ?thesis
    by (auto simp add: registryOK_def unmount_registry)
next
  case (Accept m e)
  with assms show ?thesis
    by (simp add: registryOK_def updateInstances_frame [OF assms(1)])
next
  case (Status st)
  with assms(2) statusHandlers_registry [OF assms(1), of st "statusHandlers s"] show ?thesis
    by (simp add: registryOK_def)
qed (use assms in \<open>simp_all add: registryOK_def moduleRecord_def\<close>)

lemma registryOK_drainMicrotasks:
  assumes "calm s" and "deepOnly s" and "registryOK s"
  shows "registryOK (drainMicrotasks s)"
  using assms
proof (rule drainMicrotasks_invariant)
  show "registryOK (deepUpdate m s)" if "calm s" "registryOK s" for m s
    using that(2) by (simp add: registryOK_def moduleRecord_def deepUpdate_frame [OF that(1)])
  show "registryOK (s\<lparr>microtasks := ms\<rparr>)" if "registryOK s" for ms s
    using that by (simp add: registryOK_def moduleRecord_def)
qed

lemma registryOK_run:
  assumes "sound s" and "registryOK s"
  shows "registryOK (run evs s)"
  using assms
proof (induction evs arbitrary: s)
  case Nil
  then show ?case by (simp add: run_def)
next
  case (Cons ev evs)
  from Cons.prems(1) have c: "calm s" and d: "deepOnly s"
    by (simp_all add: sound_def quiescent_def deepOnly_def)
  have c1: "calm (handleEvent ev s)" using c by (rule calm_handleEvent)
  have d1: "deepOnly (handleEvent ev s)" using c d by (rule deepOnly_handleEvent)
  have "registryOK (handleEvent ev s)" using c Cons.prems(2) by (rule registryOK_handleEvent)
  with c1 d1 have "registryOK (macrotask ev s)"
    by (simp add: macrotask_def registryOK_drainMicrotasks)
  with Cons.IH [OF sound_macrotask [OF Cons.prems(1)], of ev] show ?case
    by (simp add: run_def)
qed

lemma generation_runCallback:
  assumes "calm s"
  shows "generation s \<le> generation (runCallback cb s)"
proof (cases cb)
  case (FailbackFire m)
  then show ?thesis
    by (simp add: Let_def logException_def loggerError_def emit_def)
next
  case (DeepUpdate m)
  then show ?thesis
    by (simp add: deepUpdate_frame [OF assms])
next
  case (TailCheck m g k)
  let ?s1 = "loggerWarn tailWarning s"
  have c1: "calm ?s1"
    using assms by (simp add: loggerWarn_def emit_def calm_def)
  have "generation (deepUpdate m ?s1) = Suc (generation s)"
    unfolding deepUpdate_frame [OF c1] by (simp add: loggerWarn_def emit_def)
  then show ?thesis
    by (simp add: TailCheck checkTailUpdates_def setTimeout_def)
qed

lemma generation_handleEvent:
  assumes "calm s"
  shows "generation s \<le> generation (handleEvent ev s)"
proof (cases ev)
  case FireTimer
  from fireTimer_cases [of s] show ?thesis
  proof (elim disjE exE conjE)
    assume "fireTimer s = s"
    then show ?thesis by (simp add: FireTimer)
  next
    fix i d cb
    let ?s1 = "s\<lparr>timers := filter (\<lambda>t. fst t \<noteq> i) (timers s),
             dispatched := dispatched s @ [(i, cb, generation s)]\<rparr>"
    assume f: "fireTimer s = runCallback cb ?s1"
    have "calm ?s1" using assms by (simp add: calm_def)
    from generation_runCallback [OF this, of cb] show ?thesis
      by (simp add: FireTimer f)
  qed
next
  case (Accept m e)
  then show ?thesis
    by (simp add: updateInstances_frame [OF assms])
next
  case (Status st)
  with statusHandlers_frame [OF assms, of st "statusHandlers s"] show ?thesis
    by simp
qed (simp_all add: hot_frame exportWrapper_frame lifecycle_frame)

lemma generation_drainMicrotasks:
  assumes "calm s" and "deepOnly s" and "g \<le> generation s"
  shows "g \<le> generation (drainMicrotasks s)"
  using assms
proof (rule drainMicrotasks_invariant)
  show "g \<le> generation (deepUpdate m s)" if "calm s" "g \<le> generation s" for m s
    using that(2) by (simp add: deepUpdate_frame [OF that(1)])
  show "g \<le> generation (s\<lparr>microtasks := ms\<rparr>)" if "g \<le> generation s" for ms s
    using that by simp
qed

lemma generation_run:
  assumes "quiescent s"
  shows "generation s \<le> generation (run evs s)"
  using assms
proof (induction evs arbitrary: s)
  case Nil
  then show ?case by (simp add: run_def)
next
  case (Cons ev evs)
  from Cons.prems have c: "calm s" and d: "deepOnly s"
    by (simp_all add: quiescent_def deepOnly_def)
  have c1: "calm (handleEvent ev s)" using c by (rule calm_handleEvent)
  have d1: "deepOnly (handleEvent ev s)" using c d by (rule deepOnly_handleEvent)
  have "generation s \<le> generation (handleEvent ev s)" using c by (rule generation_handleEvent)
  with c1 d1 have "generation s \<le> generation (macrotask ev s)"
    by (simp add: macrotask_def generation_drainMicrotasks)
  also have "\<dots> \<le> generation (run evs (macrotask ev s))"
    using quiescent_macrotask [OF Cons.prems] by (rule Cons.IH)
  finally show ?case
    by (simp add: run_def)
qed

lemma forceUpdated_reloadEffects: "forceUpdated (reloadEffects s m) = []"
  by (simp add: reloadEffects_def split: option.splits)

lemma count_list_distinct: "distinct xs \<Longrightarrow> x \<in> set xs \<Longrightarrow> count_list xs x = 1"
  by (induction xs) auto

section \<open>The failback timer along the event loop\<close>







lemma tailTimer_ids: "\<forall>t \<in> set (tailTimer s m). nextTimerId s \<le> fst t"
  by (simp add: tailTimer_def)



lemma runCallback_timers:
  assumes "calm s"
  shows "\<exists>extra. timers (runCallback cb s) = timers s @ extra
      \<and> (\<forall>t \<in> set extra. nextTimerId s \<le> fst t)
      \<and> dispatched (runCallback cb s) = dispatched s \<and> closures (runCallback cb s) = closures s
      \<and> now (runCallback cb s) = now s \<and> nextTimerId s \<le> nextTimerId (runCallback cb s)"
proof (cases cb)
  case (FailbackFire m)
  then show ?thesis
    by (simp add: Let_def logException_def loggerError_def emit_def)
next
  case (DeepUpdate m)
  show ?thesis
    by (rule exI [of _ "tailTimer s m"]) (simp add: DeepUpdate deepUpdate_frame [OF assms] tailTimer_ids)
next
  case (TailCheck m g k)
  let ?s1 = "loggerWarn tailWarning s"
  have c1: "calm ?s1"
    using assms by (simp add: loggerWarn_def emit_def calm_def)
  have f: "timers ?s1 = timers s" "nextTimerId ?s1 = nextTimerId s" "dispatched ?s1 = dispatched s"
    "closures ?s1 = closures s" "now ?s1 = now s"
    by (simp_all add: loggerWarn_def emit_def)
  show ?thesis
  proof (cases "generation s = g")
    case False
    then have eq: "runCallback cb s = deepUpdate m ?s1"
      by (simp add: TailCheck getHotGeneration_def)
    show ?thesis
      unfolding eq
      by (rule exI [of _ "tailTimer ?s1 m"])
         (simp add: deepUpdate_frame [OF c1] f tailTimer_ids [of ?s1 m, unfolded f])
  next
    case True
    show ?thesis
    proof (cases "Suc k < 5")
      case True
      with \<open>generation s = g\<close> show ?thesis
        by (simp add: TailCheck getHotGeneration_def checkTailUpdates_def setTimeout_def)
    next
      case False
      with \<open>generation s = g\<close> show ?thesis
        by (simp add: TailCheck getHotGeneration_def)
    qed
  qed
qed












section \<open>The queues, task by task\<close>

lemma runner_eq: "runner q cb s = cb s"
  by (cases q) (simp_all add: unstable_batchedUpdates_def)

lemma runTask_frame:
  "settled (runTask w s) = settled s" "thens (runTask w s) = thens s"
  "nextHandle (runTask w s) = nextHandle s" "microtasks (runTask w s) = microtasks s"
  "env (runTask w s) = env s"
  by (cases w; simp add: reloadTask_eq renderTask_eq)+

lemma runTask_setQueue: "runTask w (setQueue q ps fl s) = setQueue q ps fl (runTask w s)"
  by (cases w)
     (simp_all add: reloadTask_eq renderTask_eq setQueue_def reloadEffects_def tailTimer_def
        moduleRecord_def)

lemma settle_setQueue: "settle h (setQueue q ps fl s) = setQueue q ps fl (settle h s)"
  by (simp add: settle_def setQueue_def)

lemma runPending_Nil: "runPending q [] s = s"
  by (simp add: runPending_def)

lemma runPending_Cons:
  "runPending q ((w, h) # ps) s = runPending q ps (settle h (runTask w s))"
  by (simp add: runPending_def runner_eq)

lemma runPending_snoc:
  "runPending q (ps @ [(w, h)]) s = settle h (runTask w (runPending q ps s))"
  by (simp add: runPending_def runner_eq)

lemma runPending_setQueue:
  "runPending q ps (setQueue q' ps' fl s) = setQueue q' ps' fl (runPending q ps s)"
proof (induction ps arbitrary: s)
  case Nil
  show ?case by (simp add: runPending_Nil)
next
  case (Cons p ps)
  obtain w h where p: "p = (w, h)" by (cases p)
  show ?case
    by (simp add: p runPending_Cons runTask_setQueue settle_setQueue Cons.IH)
qed

lemma setQueue_setQueue: "setQueue q ps fl (setQueue q ps' fl' s) = setQueue q ps fl s"
  by (simp add: setQueue_def)

lemma processQueue_runPending:
  "processQueue q s = setQueue q [] False (runPending q (pending (queues s q)) s)"
proof (induction q s rule: processQueue.induct)
  case (1 q s)
  show ?case
  proof (cases "pending (queues s q)")
    case Nil
    then show ?thesis
      by (simp add: processQueue.simps [of q s] runPending_Nil)
  next
    case (Cons p rest)
    obtain w h where p: "p = (w, h)" by (cases p)
    let ?s1 = "settle h (runner q (runTask w) (setQueue q rest True s))"
    have s1: "?s1 = setQueue q rest True (settle h (runTask w s))"
      by (simp add: runner_eq runTask_setQueue settle_setQueue)
    have "processQueue q s = processQueue q ?s1"
      using Cons p by (simp add: processQueue.simps [of q s])
    also have "\<dots> = setQueue q [] False (runPending q (pending (queues ?s1 q)) ?s1)"
      using 1 [OF Cons [unfolded p]] Cons p by simp
    also have "pending (queues ?s1 q) = rest"
      by (simp add: s1) (simp add: setQueue_def)
    also have "setQueue q [] False (runPending q rest ?s1) =
        setQueue q [] False (runPending q rest (settle h (runTask w s)))"
      by (simp only: s1 runPending_setQueue setQueue_setQueue)
    finally show ?thesis
      by (simp add: Cons p runPending_Cons)
  qed
qed

lemma settle_frame:
  "settled (settle h s) = h # settled s" "thens (settle h s) = filter (\<lambda>p. fst p \<noteq> h) (thens s)"
  "microtasks (settle h s) = microtasks s @ map snd (filter (\<lambda>p. fst p = h) (thens s))"
  "nextHandle (settle h s) = nextHandle s" "env (settle h s) = env s" "trace (settle h s) = trace s"
  by (simp_all add: settle_def)

lemma runPending_frame:
  "settled (runPending q ps s) = rev (map snd ps) @ settled s"
  "nextHandle (runPending q ps s) = nextHandle s"
  "env (runPending q ps s) = env s"
  "queues (runPending q ps s) = queues s"
proof (induction ps arbitrary: s)
  case Nil
  {
    case 1 show ?case by (simp add: runPending_Nil)
  next
    case 2 show ?case by (simp add: runPending_Nil)
  next
    case 3 show ?case by (simp add: runPending_Nil)
  next
    case 4 show ?case by (simp add: runPending_Nil)
  }
next
  case (Cons p ps)
  obtain w h where p: "p = (w, h)" by (cases p)
  {
    case 1 show ?case by (simp add: p runPending_Cons Cons.IH settle_frame runTask_frame)
  next
    case 2 show ?case by (simp add: p runPending_Cons Cons.IH settle_frame runTask_frame)
  next
    case 3 show ?case by (simp add: p runPending_Cons Cons.IH settle_frame runTask_frame)
  next
    case 4 show ?case by (simp add: p runPending_Cons Cons.IH)
  }
qed

lemma runPending_thens:
  "thens (runPending q ps s) = filter (\<lambda>p. fst p \<notin> snd ` set ps) (thens s)"
proof (induction ps arbitrary: s)
  case Nil
  show ?case by (simp add: runPending_Nil)
next
  case (Cons p ps)
  obtain w h where p: "p = (w, h)" by (cases p)
  show ?case
    by (simp add: p runPending_Cons Cons.IH settle_frame runTask_frame)
qed

section \<open>Handles\<close>

lemma all_qid: "(\<forall>q. P q) \<longleftrightarrow> P RequireQ \<and> P RenderQ"
  by (metis qid.exhaust)

lemma handlesFresh_iff:
  "handlesFresh s \<longleftrightarrow>
     (\<forall>x \<in> set (settled s). x < nextHandle s) \<and> (\<forall>p \<in> set (thens s). fst p < nextHandle s)
     \<and> (\<forall>q. \<forall>p \<in> set (pending (queues s q)). snd p < nextHandle s)"
  by (auto simp add: handlesFresh_def handlesInUse_def list_all_iff all_qid)

lemma handlesFresh_next:
  assumes "handlesFresh s"
  shows "nextHandle s \<notin> set (settled s)"
    "filter (\<lambda>p. fst p = nextHandle s) (thens s) = []"
    "filter (\<lambda>p. fst p \<noteq> nextHandle s) (thens s) = thens s"
    "nextHandle s \<notin> snd ` set (pending (queues s q))"
proof -
  from assms have a: "\<forall>x \<in> set (settled s). x < nextHandle s"
    and b: "\<forall>p \<in> set (thens s). fst p < nextHandle s"
    and c: "\<forall>p \<in> set (pending (queues s q)). snd p < nextHandle s"
    by (simp_all add: handlesFresh_iff)
  from a show "nextHandle s \<notin> set (settled s)"
    by auto
  from b show "filter (\<lambda>p. fst p = nextHandle s) (thens s) = []"
    by (auto simp add: filter_empty_conv)
  from b show "filter (\<lambda>p. fst p \<noteq> nextHandle s) (thens s) = thens s"
    by (auto simp add: filter_id_conv)
  from c show "nextHandle s \<notin> snd ` set (pending (queues s q))"
    by auto
qed

lemma enqueue_busy:
  assumes "inFlight (queues s q)"
  shows "enqueue q w s =
     (nextHandle s,
      setQueue q (pending (queues s q) @ [(w, nextHandle s)]) True (s\<lparr>nextHandle := Suc (nextHandle s)\<rparr>))"
  using assms by (simp add: enqueue_def Let_def)

lemma updateInstances_busy:
  assumes "handlesFresh s" and "\<not> instanceofError e" and "inFlight (queues s RequireQ)"
  shows "updateInstances m e s =
     (hotModule m s)\<lparr>nextHandle := Suc (nextHandle s),
        queues := (queues s)
          (RequireQ := \<lparr>pending = pending (queues s RequireQ) @ [(ReloadTask m, nextHandle s)],
                        inFlight = True\<rparr>),
        thens := thens s @ [(nextHandle s, DeepUpdate m)]\<rparr>"
proof -
  have busy: "inFlight (queues (hotModule m s) RequireQ)"
    using assms(3) by (simp add: hotModule_frame)
  have abort: "\<not> (truthy e \<and> instanceofError e)"
    using assms(2) by simp
  show ?thesis
    unfolding updateInstances_def runInRequireQueue_def enqueue_busy [OF busy] if_not_P [OF abort]
    using handlesFresh_next(1) [OF assms(1)]
    by (simp add: then_handle_def setQueue_def hotModule_frame)
qed

lemma updateInstances_idle:
  assumes "handlesFresh s" and "\<not> instanceofError e" and "queues s RequireQ = idleQueue"
  shows "updateInstances m e s =
     (hotModule m s)\<lparr>trace := trace s @ reloadEffects s m,
        nextHandle := Suc (nextHandle s),
        settled := nextHandle s # settled s,
        microtasks := microtasks s @ [DeepUpdate m]\<rparr>"
proof -
  have idle: "queues (hotModule m s) RequireQ = idleQueue"
    using assms(3) by (simp add: hotModule_frame)
  have abort: "\<not> (truthy e \<and> instanceofError e)"
    using assms(2) by simp
  show ?thesis
    unfolding updateInstances_def runInRequireQueue_def enqueue_idle [OF idle] if_not_P [OF abort]
    using assms(3) handlesFresh_next(2,3) [OF assms(1)]
    by (simp add: reloadTask_eq then_handle_def settle_def setQueue_def hotModule_frame
        idleQueue_def reloadEffects_def fun_upd_idem)
qed

lemma deepUpdate_busy:
  assumes "inFlight (queues s RenderQ)"
  shows "deepUpdate m s =
     s\<lparr>nextHandle := Suc (nextHandle s),
       queues := (queues s)
         (RenderQ := \<lparr>pending = pending (queues s RenderQ) @ [(RenderTask m, nextHandle s)],
                      inFlight = True\<rparr>)\<rparr>"
  unfolding deepUpdate_def runInRenderQueue_def enqueue_busy [OF assms]
  by (simp add: setQueue_def)

lemma deepUpdate_idle:
  assumes "queues s RenderQ = idleQueue"
  shows "trace (deepUpdate m s) = trace s @ EnterHotUpdate # map ForceUpdate (instances (moduleRecord s m))"
    "generation (deepUpdate m s) = Suc (generation s)"
    "settled (deepUpdate m s) = nextHandle s # settled s"
    "queues (deepUpdate m s) = queues s"
  unfolding deepUpdate_def runInRenderQueue_def enqueue_idle [OF assms]
  using assms
  by (simp_all add: renderTask_eq settle_def setQueue_def idleQueue_def fun_upd_idem
      unstable_batchedUpdates_def moduleRecord_def)

lemma queues_processQueue: "q' \<noteq> q \<Longrightarrow> queues (processQueue q s) q' = queues s q'"
  by (simp add: processQueue_runPending setQueue_def runPending_frame)

lemma queues_enqueue: "q' \<noteq> q \<Longrightarrow> queues (snd (enqueue q w s)) q' = queues s q'"
  by (simp add: enqueue_def Let_def queues_processQueue) (simp add: setQueue_def)

lemma updateInstances_render: "queues (updateInstances m e s) RenderQ = queues s RenderQ"
  by (simp add: updateInstances_def consoleError_def runInRequireQueue_def then_handle_def
      split_beta queues_enqueue hotModule_frame)

lemma deepUpdate_require: "queues (deepUpdate m s) RequireQ = queues s RequireQ"
  by (simp add: deepUpdate_def runInRenderQueue_def queues_enqueue)

lemma reload_turn:
  fixes s :: state and m e u
  assumes "handlesFresh s" and "\<not> instanceofError e" and "inFlight (queues s RequireQ)"
  defines "u \<equiv> runPending RequireQ (pending (queues s RequireQ)) (updateInstances m e s)"
  shows "nextHandle s \<notin> set (settled u)"
    and "(nextHandle s, DeepUpdate m) \<in> set (thens u)"
    and "processQueue RequireQ (updateInstances m e s) =
       u\<lparr>trace := trace u @ reloadEffects s m,
         settled := nextHandle s # settled u,
         microtasks := microtasks u @ [DeepUpdate m],
         thens := filter (\<lambda>p. fst p \<noteq> nextHandle s) (thens u),
         queues := (queues s)(RequireQ := idleQueue)\<rparr>"
proof -
  let ?h = "nextHandle s"
  let ?ps = "pending (queues s RequireQ)"
  let ?s1 = "updateInstances m e s"
  note s1 = updateInstances_busy [OF assms(1-3), of m]
  note fresh = handlesFresh_next [OF assms(1)]
  have pend: "pending (queues ?s1 RequireQ) = ?ps @ [(ReloadTask m, ?h)]"
    and st: "settled ?s1 = settled s" and th: "thens ?s1 = thens s @ [(?h, DeepUpdate m)]"
    and qs: "queues ?s1 = (queues s)(RequireQ := \<lparr>pending = ?ps @ [(ReloadTask m, ?h)], inFlight = True\<rparr>)"
    and ev: "env ?s1 = env s"
    by (simp_all add: s1 hotModule_frame)
  have notin: "?h \<notin> snd ` set ?ps"
    by (rule fresh(4))
  show a: "?h \<notin> set (settled u)"
    using fresh(1) notin by (simp add: u_def runPending_frame st)
  have f: "filter (\<lambda>p. fst p = ?h) (thens u) = [(?h, DeepUpdate m)]"
    using fresh(2) notin
    by (simp add: u_def runPending_thens th filter_empty_conv)
  have "(?h, DeepUpdate m) \<in> set (filter (\<lambda>p. fst p = ?h) (thens u))"
    by (simp only: f) simp
  then show "(?h, DeepUpdate m) \<in> set (thens u)"
    by simp
  have "processQueue RequireQ ?s1 = setQueue RequireQ [] False (settle ?h (reloadTask m u))"
    by (simp add: processQueue_runPending pend runPending_snoc u_def)
  also have "\<dots> = u\<lparr>trace := trace u @ reloadEffects s m,
         settled := ?h # settled u,
         microtasks := microtasks u @ [DeepUpdate m],
         thens := filter (\<lambda>p. fst p \<noteq> ?h) (thens u),
         queues := (queues s)(RequireQ := idleQueue)\<rparr>"
  proof -
    have q: "queues u = queues ?s1" and e: "env u = env s"
      by (simp_all add: u_def runPending_frame ev)
    show ?thesis
      by (simp add: reloadTask_eq settle_def setQueue_def f q qs e reloadEffects_def idleQueue_def)
  qed
  finally show "processQueue RequireQ ?s1 =
       u\<lparr>trace := trace u @ reloadEffects s m,
         settled := ?h # settled u,
         microtasks := microtasks u @ [DeepUpdate m],
         thens := filter (\<lambda>p. fst p \<noteq> ?h) (thens u),
         queues := (queues s)(RequireQ := idleQueue)\<rparr>" .
qed

section \<open>Handles along the event loop\<close>

lemma handlesFresh_processQueue: "handlesFresh s \<Longrightarrow> handlesFresh (processQueue q s)"
  by (auto simp add: handlesFresh_iff processQueue_runPending setQueue_def runPending_frame
      runPending_thens)

lemma nextHandle_processQueue: "nextHandle (processQueue q s) = nextHandle s"
  by (simp add: processQueue_runPending setQueue_def runPending_frame)

lemma handlesFresh_enqueue:
  assumes "handlesFresh s"
  shows "handlesFresh (snd (enqueue q w s))" "nextHandle (snd (enqueue q w s)) = Suc (nextHandle s)"
    "fst (enqueue q w s) = nextHandle s"
proof -
  let ?s1 = "setQueue q (pending (queues s q) @ [(w, nextHandle s)]) (inFlight (queues s q))
      (s\<lparr>nextHandle := Suc (nextHandle s)\<rparr>)"
  from assms have "handlesFresh ?s1"
    by (auto simp add: handlesFresh_iff setQueue_def less_Suc_eq)
  then show "handlesFresh (snd (enqueue q w s))"
    by (cases "inFlight (queues s q)") (simp_all add: enqueue_def Let_def handlesFresh_processQueue)
  show "nextHandle (snd (enqueue q w s)) = Suc (nextHandle s)"
    by (simp add: enqueue_def Let_def nextHandle_processQueue) (simp add: setQueue_def)
  show "fst (enqueue q w s) = nextHandle s"
    by (simp add: enqueue_def Let_def)
qed

lemma handlesFresh_deepUpdate: "handlesFresh s \<Longrightarrow> handlesFresh (deepUpdate m s)"
  by (simp add: deepUpdate_def runInRenderQueue_def handlesFresh_enqueue)

lemma handlesFresh_updateInstances:
  assumes "handlesFresh s"
  shows "handlesFresh (updateInstances m e s)"
proof (cases "truthy e \<and> instanceofError e")
  case True
  with assms show ?thesis
    by (simp add: updateInstances_def consoleError_def emit_def handlesFresh_def handlesInUse_def)
next
  case False
  let ?s0 = "hotModule m s"
  let ?s2 = "snd (enqueue RequireQ (ReloadTask m) ?s0)"
  have f0: "handlesFresh ?s0"
    using assms by (simp add: handlesFresh_def handlesInUse_def hotModule_frame)
  note e = handlesFresh_enqueue [OF f0, of RequireQ "ReloadTask m"]
  have "updateInstances m e s = then_handle (nextHandle s) (DeepUpdate m) ?s2"
    unfolding updateInstances_def if_not_P [OF False]
    using e(3) by (simp add: runInRequireQueue_def split_beta hotModule_frame)
  moreover have "handlesFresh (then_handle (nextHandle s) (DeepUpdate m) ?s2)"
    using e(1) e(2) by (auto simp add: then_handle_def handlesFresh_iff hotModule_frame)
  ultimately show ?thesis
    by simp
qed

lemma handlesFresh_runCallback: "handlesFresh s \<Longrightarrow> handlesFresh (runCallback cb s)"
proof (cases cb)
  case (FailbackFire m)
  assume "handlesFresh s"
  then show ?thesis
    by (simp add: FailbackFire Let_def logException_def loggerError_def emit_def handlesFresh_def
        handlesInUse_def)
next
  case (TailCheck m g k)
  assume f: "handlesFresh s"
  then have "handlesFresh (loggerWarn tailWarning s)"
    by (simp add: loggerWarn_def emit_def handlesFresh_def handlesInUse_def)
  from handlesFresh_deepUpdate [OF this] f show ?thesis
    by (simp add: TailCheck checkTailUpdates_def setTimeout_def)
       (simp add: handlesFresh_def handlesInUse_def)
next
  case (DeepUpdate m)
  assume "handlesFresh s"
  then show ?thesis
    by (simp add: DeepUpdate handlesFresh_deepUpdate)
qed

lemma handlesFresh_statusHandlers:
  "handlesFresh s \<Longrightarrow> handlesFresh (fold (\<lambda>m. statusHandler m st) ms s)"
proof (induction ms arbitrary: s)
  case Nil
  then show ?case by simp
next
  case (Cons m ms)
  have "handlesFresh (clearExceptions s)"
    using Cons.prems by (simp add: clearExceptions_def emit_def handlesFresh_def handlesInUse_def)
  then have "handlesFresh (statusHandler m st s)"
    using Cons.prems by (simp add: statusHandler_def handlesFresh_updateInstances)
  with Cons.IH show ?case
    by simp
qed

lemma handlesFresh_handleEvent:
  assumes "handlesFresh s"
  shows "handlesFresh (handleEvent ev s)"
proof (cases ev)
  case (Elapse d)
  with assms show ?thesis by (simp add: handlesFresh_def handlesInUse_def)
next
  case FireTimer
  from fireTimer_cases [of s] show ?thesis
  proof (elim disjE exE conjE)
    assume "fireTimer s = s"
    with assms show ?thesis by (simp add: FireTimer)
  next
    fix i d cb
    let ?s1 = "s\<lparr>timers := filter (\<lambda>t. fst t \<noteq> i) (timers s),
             dispatched := dispatched s @ [(i, cb, generation s)]\<rparr>"
    assume f: "fireTimer s = runCallback cb ?s1"
    have "handlesFresh ?s1"
      using assms by (simp add: handlesFresh_def handlesInUse_def)
    then show ?thesis
      by (simp add: FireTimer f handlesFresh_runCallback)
  qed
next
  case (CallHot arg)
  with assms show ?thesis
    by (simp add: hot_def Let_def consoleError_def emit_def chargeFailbackTimer_def
        setTimeout_def clearExceptions_def makeHotExport_def loggerWarn_def hotModule_def
        handlesFresh_def handlesInUse_def split: option.splits prod.splits)
next
  case (CallWrapper w c ps)
  with assms show ?thesis
    by (simp add: exportWrapper_def Let_def clearFailbackTimer_def clearTimeout_def
        register_def emit_def handlesFresh_def handlesInUse_def)
next
  case (Mount cls)
  with assms show ?thesis
    by (simp add: componentDidMount_def setInstances_def handlesFresh_def handlesInUse_def)
next
  case (Unmount cls this)
  with assms show ?thesis
    by (simp add: componentWillUnmount_def Let_def setInstances_def loggerError_def emit_def
        handlesFresh_def handlesInUse_def)
next
  case (Accept m e)
  with assms show ?thesis
    by (simp add: handlesFresh_updateInstances)
next
  case (Status st)
  with assms show ?thesis
    by (simp add: handlesFresh_statusHandlers)
next
  case (HostChange h)
  with assms show ?thesis by (simp add: handlesFresh_def handlesInUse_def)
qed

lemma handlesFresh_drainMicrotasks: "handlesFresh s \<Longrightarrow> handlesFresh (drainMicrotasks s)"
proof (induction s rule: drainMicrotasks.induct)
  case (1 s)
  show ?case
  proof (cases "microtasks s")
    case Nil
    with "1.prems" show ?thesis
      by (simp add: drainMicrotasks_Nil)
  next
    case (Cons cb rest)
    have "handlesFresh (s\<lparr>microtasks := rest\<rparr>)"
      using "1.prems" by (simp add: handlesFresh_def handlesInUse_def)
    then have "handlesFresh (runCallback cb (s\<lparr>microtasks := rest\<rparr>))"
      by (rule handlesFresh_runCallback)
    from "1.IH" [OF Cons this] show ?thesis
      by (simp add: drainMicrotasks_Cons [OF Cons])
  qed
qed

lemma handlesFresh_run: "handlesFresh s \<Longrightarrow> handlesFresh (run evs s)"
  unfolding run_def
  by (induction evs arbitrary: s)
     (simp_all add: macrotask_def handlesFresh_drainMicrotasks handlesFresh_handleEvent)

lemma handlesFresh_initial: "handlesFresh (initial h)"
  by (simp add: handlesFresh_def handlesInUse_def initial_def)

section \<open>Further concrete states and runs\<close>

lemmas queue_defs =
  running_def reloadWaiting_def secondHandler_def twoRegistered_def failingHost_def idleQueue_def
  statusHandler_def moduleB_def runPending_def

lemma reloadWaiting_state:
  "reloadWaiting =
     (running RequireQ)
       \<lparr>hotModules := [JStr ''./src/Other.js'' \<mapsto> \<lparr>instances = [], updateTimeout = 0\<rparr>],
        nextHandle := 1,
        queues := (\<lambda>q'. idleQueue)
          (RequireQ := \<lparr>pending = [(ReloadTask (JStr ''./src/Other.js''), 0)], inFlight = True\<rparr>),
        thens := [(0, DeepUpdate (JStr ''./src/Other.js''))]\<rparr>"
  by (simp add: eval_defs queue_defs)

lemma reloadWaiting_fields:
  "handlesFresh reloadWaiting" "inFlight (queues reloadWaiting RequireQ)"
  "nextHandle reloadWaiting = 1" "thens reloadWaiting = [(0, DeepUpdate (JStr ''./src/Other.js''))]"
  "pending (queues reloadWaiting RequireQ) = [(ReloadTask (JStr ''./src/Other.js''), 0)]"
  "microtasks reloadWaiting = []" "trace reloadWaiting = []" "settled reloadWaiting = []"
  "env reloadWaiting = failingHost"
  by (simp_all add: reloadWaiting_state handlesFresh_def handlesInUse_def running_def initial_fields
      idleQueue_def)

lemma secondHandler_fields:
  "handlesFresh secondHandler" "queues secondHandler RequireQ = idleQueue"
  "microtasks secondHandler = [DeepUpdate (JStr ''./src/App.js'')]"
  "trace secondHandler =
     [ClearExceptions, ClearExceptions, ClearExceptions, RequireIndirect (JStr ''./src/App.js''),
      ClearExceptions]"
  "env secondHandler = devHost"
  "statusHandlers (run twoRegistered (initial devHost)) = [JStr ''./src/App.js'', JStr ''B'']"
  "handleEvent (Status ''apply'') (run twoRegistered (initial devHost)) =
     updateInstances (JStr ''B'') JUndefined secondHandler"
  "trace (run (twoRegistered @ [Status ''apply'']) (initial devHost)) =
     [ClearExceptions, ClearExceptions, ClearExceptions, RequireIndirect (JStr ''./src/App.js''),
      ClearExceptions, RequireIndirect (JStr ''B''), EnterHotUpdate, EnterHotUpdate]"
  by (simp_all add: eval_defs queue_defs handlesFresh_def handlesInUse_def)

lemma twoTriggers_state:
  "run twoTriggers (initial devHost) =
     (initial devHost)
       \<lparr>generation := 14,
        hotModules := [JStr ''./src/App.js'' \<mapsto> \<lparr>instances = [0, 1], updateTimeout = 0\<rparr>],
        trace :=
          [ClearExceptions, Register appComponent ''App'' ''RHL./src/App.js'',
           RequireIndirect (JStr ''./src/App.js''), EnterHotUpdate, ForceUpdate 0, ForceUpdate 1,
           RequireIndirect (JStr ''./src/App.js''), EnterHotUpdate, ForceUpdate 0, ForceUpdate 1,
           LoggerWarn tailWarning, EnterHotUpdate, ForceUpdate 0, ForceUpdate 1,
           LoggerWarn tailWarning, EnterHotUpdate, ForceUpdate 0, ForceUpdate 1,
           LoggerWarn tailWarning, EnterHotUpdate, ForceUpdate 0, ForceUpdate 1,
           LoggerWarn tailWarning, EnterHotUpdate, ForceUpdate 0, ForceUpdate 1,
           LoggerWarn tailWarning, EnterHotUpdate, ForceUpdate 0, ForceUpdate 1,
           LoggerWarn tailWarning, EnterHotUpdate, ForceUpdate 0, ForceUpdate 1,
           LoggerWarn tailWarning, EnterHotUpdate, ForceUpdate 0, ForceUpdate 1,
           LoggerWarn tailWarning, EnterHotUpdate, ForceUpdate 0, ForceUpdate 1,
           LoggerWarn tailWarning, EnterHotUpdate, ForceUpdate 0, ForceUpdate 1,
           LoggerWarn tailWarning, EnterHotUpdate, ForceUpdate 0, ForceUpdate 1,
           LoggerWarn tailWarning, EnterHotUpdate, ForceUpdate 0, ForceUpdate 1,
           LoggerWarn tailWarning, EnterHotUpdate, ForceUpdate 0, ForceUpdate 1],
        now := 101,
        timers := [(13, 117, TailCheck (JStr ''./src/App.js'') 13 0), (14, 117, TailCheck (JStr ''./src/App.js'') 14 0)],
        nextTimerId := 15,
        settled := [15, 14, 13, 12, 11, 10, 9, 8, 7, 6, 5, 4, 3, 2, 1, 0],
        nextHandle := 16,
        closures := [\<lparr>cl_source = appModule, cl_moduleId = JStr ''./src/App.js'',
                      cl_failbackTimer = 0, firstHotRegistered = True\<rparr>],
        acceptHandlers := [JStr ''./src/App.js''],
        statusHandlers := [JStr ''./src/App.js''],
        nextInstance := 2,
        dispatched :=
          [(1, TailCheck (JStr ''./src/App.js'') 1 0, 2),
           (2, TailCheck (JStr ''./src/App.js'') 2 0, 3),
           (3, TailCheck (JStr ''./src/App.js'') 3 0, 4),
           (4, TailCheck (JStr ''./src/App.js'') 4 0, 5),
           (5, TailCheck (JStr ''./src/App.js'') 5 0, 6),
           (6, TailCheck (JStr ''./src/App.js'') 6 0, 7),
           (7, TailCheck (JStr ''./src/App.js'') 7 0, 8),
           (8, TailCheck (JStr ''./src/App.js'') 8 0, 9),
           (9, TailCheck (JStr ''./src/App.js'') 9 0, 10),
           (10, TailCheck (JStr ''./src/App.js'') 10 0, 11),
           (11, TailCheck (JStr ''./src/App.js'') 11 0, 12),
           (12, TailCheck (JStr ''./src/App.js'') 12 0, 13)]\<rparr>"
  by (simp add: eval_defs twoTriggers_def) (simp add: fun_eq_iff)

section \<open>The first call of the returned function\<close>

lemma run_append: "run (xs @ ys) s = run ys (run xs s)"
  by (simp add: run_def)



lemma dispatched_handleEvent:
  assumes "calm s"
  shows "dispatched (handleEvent ev s) = dispatched s
    \<or> (\<exists>x. dispatched (handleEvent ev s) = dispatched s @ [x])"
proof (cases ev)
  case FireTimer
  from fireTimer_cases [of s] show ?thesis
  proof (elim disjE exE conjE)
    assume "fireTimer s = s"
    then show ?thesis by (simp add: FireTimer)
  next
    fix i d cb
    let ?s1 = "s\<lparr>timers := filter (\<lambda>t. fst t \<noteq> i) (timers s),
             dispatched := dispatched s @ [(i, cb, generation s)]\<rparr>"
    assume f: "fireTimer s = runCallback cb ?s1"
    have "calm ?s1" using assms by (simp add: calm_def)
    from runCallback_timers [OF this, of cb] show ?thesis
      by (auto simp add: FireTimer f)
  qed
next
  case (Accept m e)
  then show ?thesis
    by (simp add: updateInstances_frame [OF assms])
next
  case (Status st)
  with statusHandlers_frame [OF assms, of st "statusHandlers s"] show ?thesis
    by simp
qed (simp_all add: hot_frame exportWrapper_frame lifecycle_frame)

lemma dispatched_drainMicrotasks:
  assumes "calm s" and "deepOnly s"
  shows "dispatched (drainMicrotasks s) = dispatched s"
proof -
  have "dispatched (drainMicrotasks s) = dispatched s"
    using assms
  proof (rule drainMicrotasks_invariant [where P = "\<lambda>s'. dispatched s' = dispatched s"])
    show "dispatched s = dispatched s" ..
    show "dispatched (deepUpdate m s') = dispatched s" if "calm s'" "dispatched s' = dispatched s" for m s'
      using that by (simp add: deepUpdate_frame)
    show "dispatched (s'\<lparr>microtasks := ms\<rparr>) = dispatched s" if "dispatched s' = dispatched s" for ms s'
      using that by simp
  qed
  then show ?thesis .
qed

lemma dispatched_macrotask:
  assumes "quiescent s"
  shows "set (dispatched s) \<subseteq> set (dispatched (macrotask ev s))"
proof -
  from assms have c: "calm s" and d: "deepOnly s"
    by (simp_all add: quiescent_def deepOnly_def)
  have "dispatched (macrotask ev s) = dispatched (handleEvent ev s)"
    unfolding macrotask_def
    using calm_handleEvent [OF c] deepOnly_handleEvent [OF c d] by (rule dispatched_drainMicrotasks)
  with dispatched_handleEvent [OF c, of ev] show ?thesis
    by auto
qed

lemma dispatched_run:
  assumes "quiescent s"
  shows "set (dispatched s) \<subseteq> set (dispatched (run evs s))"
  using assms
proof (induction evs arbitrary: s)
  case Nil
  show ?case by (simp add: run_def)
next
  case (Cons ev evs)
  from Cons.IH [OF quiescent_macrotask [OF Cons.prems]] dispatched_macrotask [OF Cons.prems, of ev]
  show ?case
    by (auto simp add: run_def)
qed





section \<open>Reports come from failback timers only\<close>

lemma filter_isReport_ForceUpdate [simp]: "filter isReport (map ForceUpdate xs) = []"
  by (induction xs) simp_all

lemma filter_isReport_reloadEffects [simp]: "filter isReport (reloadEffects s m) = []"
  by (simp add: reloadEffects_def split: option.splits)

lemma reportsOK_cong:
  "trace s' = trace s \<Longrightarrow> dispatched s' = dispatched s \<Longrightarrow> reportsOK s' = reportsOK s"
  by (simp add: reportsOK_def reportCount_def failbackCount_def)











section \<open>An update that the host reports as failed\<close>

text \<open>
  C1. When \<open>possibleError\<close> is an \<open>Error\<close>, \<open>updateInstances\<close> calls \<open>console.error\<close> with
  it and returns: the state it leaves differs from the one it found by that one trace
  entry only. So nothing is enqueued on the require or the render queue, no continuation
  or microtask is added, no instance is force-updated, and the generation counter keeps
  its value.
\<close>

theorem updateInstances_error_aborts:
  assumes "instanceofError possibleError"
  shows "updateInstances moduleId possibleError s =
           s\<lparr>trace := trace s @ [ConsoleError [CVal possibleError]]\<rparr>
         \<and> queues (updateInstances moduleId possibleError s) = queues s
         \<and> microtasks (updateInstances moduleId possibleError s) = microtasks s
         \<and> thens (updateInstances moduleId possibleError s) = thens s
         \<and> generation (updateInstances moduleId possibleError s) = generation s
         \<and> forceUpdated (trace (updateInstances moduleId possibleError s)) = forceUpdated (trace s)"
proof -
  have step: "updateInstances moduleId possibleError s =
      s\<lparr>trace := trace s @ [ConsoleError [CVal possibleError]]\<rparr>"
    using assms by (rule updateInstances_error)
  have "forceUpdated (trace s @ [ConsoleError [CVal possibleError]]) = forceUpdated (trace s)"
    by (simp add: forceUpdated_append)
  with step show ?thesis
    by simp
qed

theorem updateInstances_error_aborts_witness:
  "instanceofError (JError ''boom'')
   \<and> updateInstances (JStr ''./src/App.js'') (JError ''boom'') (initial devHost) =
       (initial devHost)\<lparr>trace := [ConsoleError [CVal (JError ''boom'')]]\<rparr>
   \<and> generation (updateInstances (JStr ''./src/App.js'') (JError ''boom'') (initial devHost)) = 0"
  using updateInstances_error_aborts [of "JError ''boom''" "JStr ''./src/App.js''" "initial devHost"]
  by (simp add: initial_def)

section \<open>The tail poll of a deep update\<close>

text \<open>
  C2. The polls of one chain, named by the epoch \<open>gen\<close> that its deep update captured.
  Each poll is set by \<open>checkTailUpdates\<close> as one timer of 16 ms and compares the generation
  counter to \<open>gen\<close>. A poll that finds the counter changed logs the warning and calls
  \<open>deepUpdate\<close> once; that deep update runs the render task again, which takes an epoch of
  its own and starts a new chain of polls, counted from zero, and the old chain sets no
  further poll. A poll that finds the counter unchanged sets the next poll of its chain
  when fewer than five polls of the chain have been made, and does nothing otherwise.
  Along every run of the event loop from the initial state, whatever else happens and
  however often the generation counter changes, the event loop dispatches at most five
  polls of one chain, and at most one of them finds the counter changed. The bound is that
  of one chain: the chains that the re-runs start have polls of their own.
\<close>

theorem tail_poll_bounded:
  "polls gen (dispatched (run evs (initial h))) \<le> 5
   \<and> mismatches gen (dispatched (run evs (initial h))) \<le> 1
   \<and> timers (checkTailUpdates moduleId gen runLimit s) =
       timers s @ [(nextTimerId s, now s + 16, TailCheck moduleId gen runLimit)]
   \<and> (calm s \<and> generation s \<noteq> gen \<longrightarrow>
        runCallback (TailCheck moduleId gen runLimit) s = deepUpdate moduleId (loggerWarn tailWarning s)
        \<and> trace (runCallback (TailCheck moduleId gen runLimit) s) =
            trace s @ LoggerWarn tailWarning # EnterHotUpdate #
            map ForceUpdate (instances (moduleRecord s moduleId))
        \<and> generation (runCallback (TailCheck moduleId gen runLimit) s) = Suc (generation s)
        \<and> timers (runCallback (TailCheck moduleId gen runLimit) s) = timers s @ tailTimer s moduleId)
   \<and> (generation s = gen \<and> Suc runLimit < 5 \<longrightarrow>
        runCallback (TailCheck moduleId gen runLimit) s = checkTailUpdates moduleId gen (Suc runLimit) s)
   \<and> (generation s = gen \<and> \<not> Suc runLimit < 5 \<longrightarrow>
        runCallback (TailCheck moduleId gen runLimit) s = s)"
proof -
  have "sound (run evs (initial h))"
    using sound_initial by (rule sound_run)
  then have "tailInv (generation (run evs (initial h))) (timers (run evs (initial h)))
      (dispatched (run evs (initial h)))"
    by (simp add: sound_def tailOK_def)
  then have "tailC (generation (run evs (initial h))) (dispatched (run evs (initial h)))"
    by (simp add: tailInv_def)
  then have bound: "polls gen (dispatched (run evs (initial h))) \<le> 5
      \<and> mismatches gen (dispatched (run evs (initial h))) \<le> 1"
    by (simp add: tailC_def)
  have delay: "timers (checkTailUpdates moduleId gen runLimit s) =
       timers s @ [(nextTimerId s, now s + 16, TailCheck moduleId gen runLimit)]"
    by (simp add: checkTailUpdates_def setTimeout_def)
  have rerun: "runCallback (TailCheck moduleId gen runLimit) s = deepUpdate moduleId (loggerWarn tailWarning s)
        \<and> trace (runCallback (TailCheck moduleId gen runLimit) s) =
            trace s @ LoggerWarn tailWarning # EnterHotUpdate #
            map ForceUpdate (instances (moduleRecord s moduleId))
        \<and> generation (runCallback (TailCheck moduleId gen runLimit) s) = Suc (generation s)
        \<and> timers (runCallback (TailCheck moduleId gen runLimit) s) = timers s @ tailTimer s moduleId"
    if "calm s" "generation s \<noteq> gen"
  proof -
    let ?s1 = "loggerWarn tailWarning s"
    have c1: "calm ?s1"
      using that(1) by (simp add: loggerWarn_def emit_def calm_def)
    have eq: "runCallback (TailCheck moduleId gen runLimit) s = deepUpdate moduleId ?s1"
      using that(2) by (simp add: getHotGeneration_def)
    show ?thesis
      unfolding eq
      by (simp add: deepUpdate_frame [OF c1])
         (simp add: loggerWarn_def emit_def moduleRecord_def tailTimer_def)
  qed
  have again: "runCallback (TailCheck moduleId gen runLimit) s = checkTailUpdates moduleId gen (Suc runLimit) s"
    if "generation s = gen" "Suc runLimit < 5"
    using that by (simp add: getHotGeneration_def)
  have stop: "runCallback (TailCheck moduleId gen runLimit) s = s"
    if "generation s = gen" "\<not> Suc runLimit < 5"
    using that by (simp add: getHotGeneration_def)
  from bound delay rerun again stop show ?thesis
    by blast
qed

theorem tail_poll_bounded_witness:
  "polls 1 (dispatched (run fivePolls (initial devHost))) = 5
   \<and> polls 1 (dispatched (run fivePolls (initial devHost))) \<le> 5
   \<and> mismatches 1 (dispatched (run fivePolls (initial devHost))) \<le> 1
   \<and> calm (initial devHost) \<and> generation (initial devHost) \<noteq> 1
   \<and> generation (runCallback (TailCheck (JStr ''./src/App.js'') 1 0) (initial devHost)) = 1
   \<and> generation (initial devHost) = 0 \<and> Suc 3 < 5 \<and> \<not> Suc 4 < 5
   \<and> runCallback (TailCheck (JStr ''./src/App.js'') 0 3) (initial devHost) =
       checkTailUpdates (JStr ''./src/App.js'') 0 4 (initial devHost)
   \<and> runCallback (TailCheck (JStr ''./src/App.js'') 0 4) (initial devHost) = initial devHost"
proof -
  have five: "polls 1 (dispatched (run fivePolls (initial devHost))) = 5"
    by (simp add: eval_defs fivePolls_def polls_def)
  have c: "calm (initial devHost)"
    using quiescent_initial [of devHost] by (simp add: quiescent_def)
  have g: "generation (initial devHost) = 0"
    by (simp add: initial_fields)
  note w1 = tail_poll_bounded [of 1 fivePolls devHost "JStr ''./src/App.js''" 0 "initial devHost"]
  note w2 = tail_poll_bounded [of 0 fivePolls devHost "JStr ''./src/App.js''" 3 "initial devHost"]
  note w3 = tail_poll_bounded [of 0 fivePolls devHost "JStr ''./src/App.js''" 4 "initial devHost"]
  have ne: "generation (initial devHost) \<noteq> 1"
    by (simp add: initial_fields)
  have lt: "Suc 3 < (5::nat)" and ge: "\<not> Suc 4 < (5::nat)"
    by simp_all
  from w1 c ne have a: "polls 1 (dispatched (run fivePolls (initial devHost))) \<le> 5"
      "mismatches 1 (dispatched (run fivePolls (initial devHost))) \<le> 1"
      "generation (runCallback (TailCheck (JStr ''./src/App.js'') 1 0) (initial devHost)) =
         Suc (generation (initial devHost))"
    by blast+
  from w2 g lt have b: "runCallback (TailCheck (JStr ''./src/App.js'') 0 3) (initial devHost) =
       checkTailUpdates (JStr ''./src/App.js'') 0 (Suc 3) (initial devHost)"
    by blast
  from w3 g ge have d: "runCallback (TailCheck (JStr ''./src/App.js'') 0 4) (initial devHost) = initial devHost"
    by blast
  from five a b d c g ne show ?thesis
    by (simp del: runCallback.simps)
qed

text \<open>
  C2, as the specification states it, has polling stop after at most five attempts even
  if the generation counter keeps changing, and has a mismatch re-run the deep update
  exactly once more. The code does neither: polling as a whole need not come to an end,
  and a deep update can be re-run more than once. When the host triggers two updates of one module 5 ms apart, the first poll of
  each chain finds the epoch of the other: it logs the warning and calls \<open>deepUpdate\<close>, and
  the chain that this starts is found changed in turn by the re-run of the other. After
  six rounds of 16 ms the event loop has dispatched twelve polls, every one of them has
  found the counter changed and logged the warning, two polls are pending again, the two
  instances have been force-updated 28 times in all, and the counter stands at 14.
\<close>

theorem tail_poll_restarts:
  "pollsDispatched (run twoTriggers (initial devHost)) = 12
   \<and> count_list (trace (run twoTriggers (initial devHost))) (LoggerWarn tailWarning) = 12
   \<and> pollsPending (run twoTriggers (initial devHost)) = 2
   \<and> length (forceUpdated (trace (run twoTriggers (initial devHost)))) = 28
   \<and> generation (run twoTriggers (initial devHost)) = 14"
  by (simp add: twoTriggers_state pollsDispatched_def pollsPending_def)

section \<open>One deep update\<close>

text \<open>
  C3. One update of a module that the host triggers without an error, in any state that
  the event loop reaches from the initial state. The macrotask runs the reload task, then
  the render task: \<open>enterHotUpdate\<close> is called first, and then \<open>forceUpdate\<close> once on each
  instance that the record of the module holds at that moment, in their order. So every
  registered instance is force-updated exactly once by the cycle and no other instance at
  all; the generation counter is its old value plus one; when tail updates are tracked the
  one timer set carries that new value as the captured epoch. Whatever runs later, the
  counter never falls below that value. The last part states what the render task of any
  cycle does, in any state: the same increment, the same force-updates, the same timer.
\<close>

theorem deep_update_cycle:
  assumes "s = run evs (initial h)" and "moduleId \<in> set (acceptHandlers s)"
    and "\<not> instanceofError possibleError"
  shows "trace (macrotask (Accept moduleId possibleError) s) =
           trace s @ reloadEffects s moduleId @
           EnterHotUpdate # map ForceUpdate (instances (moduleRecord s moduleId))
         \<and> forceUpdated (trace (macrotask (Accept moduleId possibleError) s)) =
             forceUpdated (trace s) @ instances (moduleRecord s moduleId)
         \<and> (\<forall>i \<in> set (instances (moduleRecord s moduleId)).
               count_list (forceUpdated (trace (macrotask (Accept moduleId possibleError) s))) i =
               Suc (count_list (forceUpdated (trace s)) i))
         \<and> (\<forall>i. i \<notin> set (instances (moduleRecord s moduleId)) \<longrightarrow>
               count_list (forceUpdated (trace (macrotask (Accept moduleId possibleError) s))) i =
               count_list (forceUpdated (trace s)) i)
         \<and> generation (macrotask (Accept moduleId possibleError) s) = Suc (generation s)
         \<and> timers (macrotask (Accept moduleId possibleError) s) = timers s @ tailTimer s moduleId
         \<and> Suc (generation s) \<le> generation (run later (macrotask (Accept moduleId possibleError) s))
         \<and> renderTask m s0 =
             s0\<lparr>generation := Suc (generation s0),
                trace := trace s0 @ EnterHotUpdate # map ForceUpdate (instances (moduleRecord s0 m)),
                timers := timers s0 @ tailTimer s0 m,
                nextTimerId := nextTimerId s0 + length (tailTimer s0 m)\<rparr>"
proof -
  let ?s' = "macrotask (Accept moduleId possibleError) s"
  let ?insts = "instances (moduleRecord s moduleId)"
  have snd: "sound s"
    unfolding assms(1) using sound_initial by (rule sound_run)
  then have q: "quiescent s"
    by (simp add: sound_def)
  have "registryOK s"
    unfolding assms(1) using sound_initial registryOK_initial by (rule registryOK_run)
  then have dist: "distinct ?insts"
    by (simp add: registryOK_def)
  have step: "?s' = drainMicrotasks (updateInstances moduleId possibleError s)"
    using assms(2) by (simp add: macrotask_def)
  have tr: "trace ?s' = trace s @ reloadEffects s moduleId @ EnterHotUpdate # map ForceUpdate ?insts"
    and gen: "generation ?s' = Suc (generation s)"
    and tm: "timers ?s' = timers s @ tailTimer s moduleId"
    unfolding step update_cycle [OF q assms(3)] by (simp_all add: hotModule_frame)
  have forced: "forceUpdated (trace ?s') = forceUpdated (trace s) @ ?insts"
    by (simp add: tr forceUpdated_append forceUpdated_reloadEffects forceUpdated_map)
  have once: "count_list (forceUpdated (trace ?s')) i = Suc (count_list (forceUpdated (trace s)) i)"
    if "i \<in> set ?insts" for i
    using count_list_distinct [OF dist that] by (simp add: forced)
  have none: "count_list (forceUpdated (trace ?s')) i = count_list (forceUpdated (trace s)) i"
    if "i \<notin> set ?insts" for i
    using that by (simp add: forced)
  have "quiescent ?s'"
    using q by (rule quiescent_macrotask)
  from generation_run [OF this, of later] gen
  have mono: "Suc (generation s) \<le> generation (run later ?s')"
    by simp
  note task = renderTask_eq [of m s0]
  from tr forced once none gen tm mono task show ?thesis
    by blast
qed

theorem deep_update_cycle_witness:
  "JStr ''./src/App.js'' \<in> set (acceptHandlers (run mountedTwice (initial devHost)))
   \<and> \<not> instanceofError JUndefined
   \<and> instances (moduleRecord (run mountedTwice (initial devHost)) (JStr ''./src/App.js'')) = [0, 1]
   \<and> trace (macrotask (Accept (JStr ''./src/App.js'') JUndefined) (run mountedTwice (initial devHost))) =
       [ClearExceptions, Register appComponent ''App'' ''RHL./src/App.js'',
        RequireIndirect (JStr ''./src/App.js''), EnterHotUpdate, ForceUpdate 0, ForceUpdate 1]
   \<and> count_list (forceUpdated (trace (macrotask (Accept (JStr ''./src/App.js'') JUndefined)
        (run mountedTwice (initial devHost))))) 0 = 1
   \<and> count_list (forceUpdated (trace (macrotask (Accept (JStr ''./src/App.js'') JUndefined)
        (run mountedTwice (initial devHost))))) 1 = 1
   \<and> count_list (forceUpdated (trace (macrotask (Accept (JStr ''./src/App.js'') JUndefined)
        (run mountedTwice (initial devHost))))) 2 = 0
   \<and> generation (run mountedTwice (initial devHost)) = 0
   \<and> generation (macrotask (Accept (JStr ''./src/App.js'') JUndefined)
        (run mountedTwice (initial devHost))) = 1
   \<and> timers (macrotask (Accept (JStr ''./src/App.js'') JUndefined) (run mountedTwice (initial devHost))) =
       [(1, 16, TailCheck (JStr ''./src/App.js'') 1 0)]
   \<and> 1 \<le> generation (run [Elapse 16, FireTimer]
        (macrotask (Accept (JStr ''./src/App.js'') JUndefined) (run mountedTwice (initial devHost))))
   \<and> generation (run fivePolls (initial devHost)) = 1
   \<and> forceUpdated (trace (run fivePolls (initial devHost))) = [0, 1]"
proof -
  let ?m = "JStr ''./src/App.js''"
  let ?s = "run mountedTwice (initial devHost)"
  let ?s' = "macrotask (Accept ?m JUndefined) ?s"
  have reg: "?m \<in> set (acceptHandlers ?s)" and e: "\<not> instanceofError JUndefined"
    by (simp_all add: mountedTwice_fields)
  have insts: "instances (moduleRecord ?s ?m) = [0, 1]" and g0: "generation ?s = 0"
    by (simp_all add: mountedTwice_fields)
  note w = deep_update_cycle [OF refl reg e, of "[Elapse 16, FireTimer]"]
  have tr: "trace ?s' = trace ?s @ reloadEffects ?s ?m @ EnterHotUpdate # map ForceUpdate (instances (moduleRecord ?s ?m))"
    by (rule w [THEN conjunct1])
  then have a: "trace ?s' =
       [ClearExceptions, Register appComponent ''App'' ''RHL./src/App.js'',
        RequireIndirect ?m, EnterHotUpdate, ForceUpdate 0, ForceUpdate 1]"
    by (simp add: mountedTwice_fields reloadEffects_def devHost_def)
  have once: "\<forall>i \<in> set (instances (moduleRecord ?s ?m)).
      count_list (forceUpdated (trace ?s')) i = Suc (count_list (forceUpdated (trace ?s)) i)"
    by (rule w [THEN conjunct2, THEN conjunct2, THEN conjunct1])
  have b0: "count_list (forceUpdated (trace ?s')) 0 = 1"
    using once [rule_format, of 0] by (simp add: insts mountedTwice_fields)
  have b1: "count_list (forceUpdated (trace ?s')) 1 = 1"
    using once [rule_format, of 1] by (simp add: insts mountedTwice_fields)
  have none: "\<forall>i. i \<notin> set (instances (moduleRecord ?s ?m)) \<longrightarrow>
      count_list (forceUpdated (trace ?s')) i = count_list (forceUpdated (trace ?s)) i"
    by (rule w [THEN conjunct2, THEN conjunct2, THEN conjunct2, THEN conjunct1])
  have b2: "count_list (forceUpdated (trace ?s')) 2 = 0"
    using none [rule_format, of 2] by (simp add: insts mountedTwice_fields)
  have "generation ?s' = Suc (generation ?s)"
    by (rule w [THEN conjunct2, THEN conjunct2, THEN conjunct2, THEN conjunct2, THEN conjunct1])
  then have c: "generation ?s' = 1"
    by (simp add: g0)
  have "timers ?s' = timers ?s @ tailTimer ?s ?m"
    by (rule w [THEN conjunct2, THEN conjunct2, THEN conjunct2, THEN conjunct2, THEN conjunct2,
          THEN conjunct1])
  then have d: "timers ?s' = [(1, 16, TailCheck ?m 1 0)]"
    by (simp add: mountedTwice_fields tailTimer_def devHost_def)
  have "Suc (generation ?s) \<le> generation (run [Elapse 16, FireTimer] ?s')"
    by (rule w [THEN conjunct2, THEN conjunct2, THEN conjunct2, THEN conjunct2, THEN conjunct2,
          THEN conjunct2, THEN conjunct1])
  then have f: "1 \<le> generation (run [Elapse 16, FireTimer] ?s')"
    by (simp add: g0)
  have five: "generation (run fivePolls (initial devHost)) = 1"
    "forceUpdated (trace (run fivePolls (initial devHost))) = [0, 1]"
    by (simp_all add: eval_defs fivePolls_def)
  from reg e insts a b0 b1 b2 g0 c d f five show ?thesis
    by blast
qed

section \<open>Reload, then render\<close>

text \<open>
  C4. An update that is not aborted, in any state whose handles are fresh. Every state that
  the event loop reaches from the initial state has fresh handles and is quiescent; the
  call keeps handles fresh and calm states calm, so the states in which a later status
  handler of the same macrotask calls \<open>updateInstances\<close> are covered as well.

  The call itself never touches the render queue. When a task of the require queue is
  running, the call appends the reload task to the pending tasks of the require queue and
  \<open>deepUpdate\<close> waits for its handle: it is kept as a continuation of the handle, it is not
  among the microtasks, and nothing is recorded. While the tasks pending before it run,
  the handle stays unsettled and the continuation keeps waiting; once the reload task has
  run, recording its re-require and, when that threw, the two \<open>console.error\<close> calls of
  its \<open>catch\<close>, the handle is settled and \<open>deepUpdate\<close> is the last of the microtasks.
  When the require queue is idle, the reload task runs at once, its handle is settled when
  the call returns, and \<open>deepUpdate\<close> is appended to the microtasks, behind those that wait
  already.

  The continuation \<open>deepUpdate\<close>, when it runs, does not touch the require queue: it enqueues
  the render task on the render queue. When a task of the render queue is running, the
  render task is appended to its pending tasks; when the render queue is idle, the render
  task runs at once: the counter is incremented, the instances are force-updated, and the
  handle of the render task is settled.

  From a quiescent state, when \<open>updateInstances\<close> returns the trace holds the effects of
  the reload task and nothing else, the counter has its old value, and draining the
  microtasks then runs the render task. None of this depends on whether the re-require
  threw.
\<close>

theorem deepUpdate_after_reload_settles:
  fixes s t s1 u :: state and moduleId possibleError :: js_value and h :: nat
  assumes "handlesFresh s" and "\<not> instanceofError possibleError"
  defines "h \<equiv> nextHandle s"
    and "s1 \<equiv> updateInstances moduleId possibleError s"
    and "u \<equiv> runPending RequireQ (pending (queues s RequireQ)) (updateInstances moduleId possibleError s)"
  shows "queues s1 RenderQ = queues s RenderQ
    \<and> (inFlight (queues s RequireQ) \<longrightarrow>
          s1 = (hotModule moduleId s)
                 \<lparr>nextHandle := Suc h,
                  queues := (queues s)
                    (RequireQ := \<lparr>pending = pending (queues s RequireQ) @ [(ReloadTask moduleId, h)],
                                  inFlight = True\<rparr>),
                  thens := thens s @ [(h, DeepUpdate moduleId)]\<rparr>
          \<and> h \<notin> set (settled u) \<and> (h, DeepUpdate moduleId) \<in> set (thens u)
          \<and> processQueue RequireQ s1 =
              u\<lparr>trace := trace u @ reloadEffects s moduleId,
                settled := h # settled u,
                microtasks := microtasks u @ [DeepUpdate moduleId],
                thens := filter (\<lambda>p. fst p \<noteq> h) (thens u),
                queues := (queues s)(RequireQ := idleQueue)\<rparr>)
    \<and> (queues s RequireQ = idleQueue \<longrightarrow>
          s1 = (hotModule moduleId s)
                 \<lparr>trace := trace s @ reloadEffects s moduleId,
                  nextHandle := Suc h,
                  settled := h # settled s,
                  microtasks := microtasks s @ [DeepUpdate moduleId]\<rparr>)
    \<and> queues (runCallback (DeepUpdate moduleId) t) RequireQ = queues t RequireQ
    \<and> (inFlight (queues t RenderQ) \<longrightarrow>
          runCallback (DeepUpdate moduleId) t =
            t\<lparr>nextHandle := Suc (nextHandle t),
              queues := (queues t)
                (RenderQ := \<lparr>pending = pending (queues t RenderQ) @ [(RenderTask moduleId, nextHandle t)],
                             inFlight = True\<rparr>)\<rparr>)
    \<and> (queues t RenderQ = idleQueue \<longrightarrow>
          trace (runCallback (DeepUpdate moduleId) t) =
            trace t @ EnterHotUpdate # map ForceUpdate (instances (moduleRecord t moduleId))
          \<and> generation (runCallback (DeepUpdate moduleId) t) = Suc (generation t)
          \<and> settled (runCallback (DeepUpdate moduleId) t) = nextHandle t # settled t
          \<and> queues (runCallback (DeepUpdate moduleId) t) = queues t)
    \<and> (quiescent s \<longrightarrow>
          trace s1 = trace s @ reloadEffects s moduleId
          \<and> h \<in> set (settled s1)
          \<and> microtasks s1 = [DeepUpdate moduleId]
          \<and> queues s1 RenderQ = idleQueue
          \<and> generation s1 = generation s
          \<and> trace (drainMicrotasks s1) =
              trace s @ reloadEffects s moduleId @
              EnterHotUpdate # map ForceUpdate (instances (moduleRecord s moduleId))
          \<and> generation (drainMicrotasks s1) = Suc (generation s)
          \<and> Suc h \<in> set (settled (drainMicrotasks s1)))
    \<and> handlesFresh s1
    \<and> (calm s \<longrightarrow> calm s1)
    \<and> handlesFresh (run evs (initial host))
    \<and> quiescent (run evs (initial host))"
    (is "?render \<and> ?busy \<and> ?idle \<and> ?require \<and> ?wait \<and> ?now \<and> ?cycle \<and> ?keep \<and> ?calm
         \<and> ?reach \<and> ?quiet")
proof -
  have render: ?render
    unfolding s1_def by (rule updateInstances_render)
  have busy: ?busy
  proof (rule impI)
    assume b: "inFlight (queues s RequireQ)"
    show "s1 = (hotModule moduleId s)
                 \<lparr>nextHandle := Suc h,
                  queues := (queues s)
                    (RequireQ := \<lparr>pending = pending (queues s RequireQ) @ [(ReloadTask moduleId, h)],
                                  inFlight = True\<rparr>),
                  thens := thens s @ [(h, DeepUpdate moduleId)]\<rparr>
          \<and> h \<notin> set (settled u) \<and> (h, DeepUpdate moduleId) \<in> set (thens u)
          \<and> processQueue RequireQ s1 =
              u\<lparr>trace := trace u @ reloadEffects s moduleId,
                settled := h # settled u,
                microtasks := microtasks u @ [DeepUpdate moduleId],
                thens := filter (\<lambda>p. fst p \<noteq> h) (thens u),
                queues := (queues s)(RequireQ := idleQueue)\<rparr>"
      unfolding s1_def h_def u_def
      using updateInstances_busy [OF assms(1,2) b, of moduleId]
        reload_turn [OF assms(1,2) b, of moduleId]
      by (intro conjI)
  qed
  have idle: ?idle
  proof (rule impI)
    assume "queues s RequireQ = idleQueue"
    with assms(1,2) show "s1 = (hotModule moduleId s)
                 \<lparr>trace := trace s @ reloadEffects s moduleId,
                  nextHandle := Suc h,
                  settled := h # settled s,
                  microtasks := microtasks s @ [DeepUpdate moduleId]\<rparr>"
      unfolding s1_def h_def by (rule updateInstances_idle)
  qed
  have require: ?require
    by (simp add: deepUpdate_require)
  have wait: ?wait
  proof (rule impI)
    assume "inFlight (queues t RenderQ)"
    from deepUpdate_busy [OF this, of moduleId]
    show "runCallback (DeepUpdate moduleId) t =
            t\<lparr>nextHandle := Suc (nextHandle t),
              queues := (queues t)
                (RenderQ := \<lparr>pending = pending (queues t RenderQ) @ [(RenderTask moduleId, nextHandle t)],
                             inFlight = True\<rparr>)\<rparr>"
      by simp
  qed
  have now: ?now
  proof (rule impI)
    assume "queues t RenderQ = idleQueue"
    from deepUpdate_idle [OF this, of moduleId]
    show "trace (runCallback (DeepUpdate moduleId) t) =
            trace t @ EnterHotUpdate # map ForceUpdate (instances (moduleRecord t moduleId))
          \<and> generation (runCallback (DeepUpdate moduleId) t) = Suc (generation t)
          \<and> settled (runCallback (DeepUpdate moduleId) t) = nextHandle t # settled t
          \<and> queues (runCallback (DeepUpdate moduleId) t) = queues t"
      by simp
  qed
  have cycle: ?cycle
  proof (rule impI)
    assume q: "quiescent s"
    have c: "calm s" and mt: "microtasks s = []"
      using q by (simp_all add: quiescent_def)
    have first: "s1 =
        (hotModule moduleId s)\<lparr>trace := trace s @ reloadEffects s moduleId,
          nextHandle := Suc (nextHandle s),
          settled := nextHandle s # settled s,
          microtasks := [DeepUpdate moduleId]\<rparr>"
      unfolding s1_def using updateInstances_calm [OF c assms(2)] mt by simp
    have i: "queues (hotModule moduleId s) RenderQ = idleQueue"
      using c by (simp add: calm_def hotModule_frame)
    have before: "trace s1 = trace s @ reloadEffects s moduleId
          \<and> h \<in> set (settled s1)
          \<and> microtasks s1 = [DeepUpdate moduleId]
          \<and> queues s1 RenderQ = idleQueue
          \<and> generation s1 = generation s"
      unfolding first h_def using i by (simp add: hotModule_frame)
    have after: "trace (drainMicrotasks s1) =
              trace s @ reloadEffects s moduleId @
              EnterHotUpdate # map ForceUpdate (instances (moduleRecord s moduleId))
          \<and> generation (drainMicrotasks s1) = Suc (generation s)
          \<and> Suc h \<in> set (settled (drainMicrotasks s1))"
      unfolding s1_def h_def update_cycle [OF q assms(2)] by simp
    from before after
    show "trace s1 = trace s @ reloadEffects s moduleId
          \<and> h \<in> set (settled s1)
          \<and> microtasks s1 = [DeepUpdate moduleId]
          \<and> queues s1 RenderQ = idleQueue
          \<and> generation s1 = generation s
          \<and> trace (drainMicrotasks s1) =
              trace s @ reloadEffects s moduleId @
              EnterHotUpdate # map ForceUpdate (instances (moduleRecord s moduleId))
          \<and> generation (drainMicrotasks s1) = Suc (generation s)
          \<and> Suc h \<in> set (settled (drainMicrotasks s1))"
      by (intro conjI) simp_all
  qed
  have keep: ?keep
    unfolding s1_def using assms(1) by (rule handlesFresh_updateInstances)
  have calm: ?calm
    unfolding s1_def by (simp add: calm_updateInstances)
  have reach: ?reach
    using handlesFresh_initial by (rule handlesFresh_run)
  have quiet: ?quiet
    using quiescent_initial by (rule quiescent_run)
  from render busy idle require wait now cycle keep calm reach quiet show ?thesis
    by (intro conjI)
qed

theorem deepUpdate_after_reload_settles_witness:
  "handlesFresh reloadWaiting \<and> \<not> instanceofError JUndefined
   \<and> inFlight (queues reloadWaiting RequireQ)
   \<and> thens (updateInstances (JStr ''./src/App.js'') JUndefined reloadWaiting) =
       [(0, DeepUpdate (JStr ''./src/Other.js'')), (1, DeepUpdate (JStr ''./src/App.js''))]
   \<and> pending (queues (updateInstances (JStr ''./src/App.js'') JUndefined reloadWaiting) RequireQ) =
       [(ReloadTask (JStr ''./src/Other.js''), 0), (ReloadTask (JStr ''./src/App.js''), 1)]
   \<and> microtasks (updateInstances (JStr ''./src/App.js'') JUndefined reloadWaiting) = []
   \<and> trace (updateInstances (JStr ''./src/App.js'') JUndefined reloadWaiting) = []
   \<and> trace (processQueue RequireQ (updateInstances (JStr ''./src/App.js'') JUndefined reloadWaiting)) =
       [RequireIndirect (JStr ''./src/Other.js''),
        ConsoleError [CStr ''React-Hot-Loader: error detected while loading'', CVal (JStr ''./src/Other.js'')],
        ConsoleError [CVal (JError ''Cannot find module'')],
        RequireIndirect (JStr ''./src/App.js''),
        ConsoleError [CStr ''React-Hot-Loader: error detected while loading'', CVal (JStr ''./src/App.js'')],
        ConsoleError [CVal (JError ''Cannot find module'')]]
   \<and> microtasks (processQueue RequireQ (updateInstances (JStr ''./src/App.js'') JUndefined reloadWaiting)) =
       [DeepUpdate (JStr ''./src/Other.js''), DeepUpdate (JStr ''./src/App.js'')]
   \<and> settled (processQueue RequireQ (updateInstances (JStr ''./src/App.js'') JUndefined reloadWaiting)) =
       [1, 0]
   \<and> handlesFresh secondHandler \<and> queues secondHandler RequireQ = idleQueue
   \<and> microtasks secondHandler = [DeepUpdate (JStr ''./src/App.js'')]
   \<and> microtasks (updateInstances (JStr ''B'') JUndefined secondHandler) =
       [DeepUpdate (JStr ''./src/App.js''), DeepUpdate (JStr ''B'')]
   \<and> trace (updateInstances (JStr ''B'') JUndefined secondHandler) =
       [ClearExceptions, ClearExceptions, ClearExceptions, RequireIndirect (JStr ''./src/App.js''),
        ClearExceptions, RequireIndirect (JStr ''B'')]
   \<and> handleEvent (Status ''apply'') (run twoRegistered (initial devHost)) =
       updateInstances (JStr ''B'') JUndefined secondHandler
   \<and> trace (run (twoRegistered @ [Status ''apply'']) (initial devHost)) =
       [ClearExceptions, ClearExceptions, ClearExceptions, RequireIndirect (JStr ''./src/App.js''),
        ClearExceptions, RequireIndirect (JStr ''B''), EnterHotUpdate, EnterHotUpdate]
   \<and> inFlight (queues (running RenderQ) RenderQ)
   \<and> pending (queues (runCallback (DeepUpdate (JStr ''./src/App.js'')) (running RenderQ)) RenderQ) =
       [(RenderTask (JStr ''./src/App.js''), 0)]
   \<and> trace (runCallback (DeepUpdate (JStr ''./src/App.js'')) (running RenderQ)) = []
   \<and> queues (running RequireQ) RenderQ = idleQueue
   \<and> trace (runCallback (DeepUpdate (JStr ''./src/App.js'')) (running RequireQ)) = [EnterHotUpdate]
   \<and> handlesFresh (initial failingHost) \<and> quiescent (initial failingHost)
   \<and> trace (drainMicrotasks (updateInstances (JStr ''./src/App.js'') JUndefined (initial failingHost))) =
       [RequireIndirect (JStr ''./src/App.js''),
        ConsoleError [CStr ''React-Hot-Loader: error detected while loading'', CVal (JStr ''./src/App.js'')],
        ConsoleError [CVal (JError ''Cannot find module'')],
        EnterHotUpdate]
   \<and> microtasks (updateInstances (JStr ''./src/App.js'') JUndefined (initial failingHost)) =
       [DeepUpdate (JStr ''./src/App.js'')]
   \<and> generation (updateInstances (JStr ''./src/App.js'') JUndefined (initial failingHost)) = 0
   \<and> generation (drainMicrotasks (updateInstances (JStr ''./src/App.js'') JUndefined (initial failingHost))) = 1"
proof -
  let ?app = "JStr ''./src/App.js''"
  let ?other = "JStr ''./src/Other.js''"
  have e: "\<not> instanceofError JUndefined"
    by simp
  note busy = deepUpdate_after_reload_settles [OF reloadWaiting_fields(1) e,
      where moduleId = ?app and t = "running RenderQ", THEN conjunct2, THEN conjunct1, rule_format,
      OF reloadWaiting_fields(2)]
  let ?s1 = "updateInstances ?app JUndefined reloadWaiting"
  let ?u = "runPending RequireQ (pending (queues reloadWaiting RequireQ)) ?s1"
  have s1: "thens ?s1 = [(0, DeepUpdate ?other), (1, DeepUpdate ?app)]"
    "pending (queues ?s1 RequireQ) = [(ReloadTask ?other, 0), (ReloadTask ?app, 1)]"
    "microtasks ?s1 = []" "trace ?s1 = []" "settled ?s1 = []" "env ?s1 = failingHost"
    by (simp_all add: busy [THEN conjunct1] reloadWaiting_fields hotModule_frame)
  have u: "trace ?u =
      [RequireIndirect ?other,
       ConsoleError [CStr ''React-Hot-Loader: error detected while loading'', CVal ?other],
       ConsoleError [CVal (JError ''Cannot find module'')]]"
    "microtasks ?u = [DeepUpdate ?other]" "settled ?u = [0]"
    by (simp_all add: reloadWaiting_fields runPending_Cons runPending_Nil settle_frame reloadTask_eq
        reloadEffects_def s1 failingHost_def)
  note turn = busy [THEN conjunct2, THEN conjunct2, THEN conjunct2]
  have p: "trace (processQueue RequireQ ?s1) =
       [RequireIndirect ?other,
        ConsoleError [CStr ''React-Hot-Loader: error detected while loading'', CVal ?other],
        ConsoleError [CVal (JError ''Cannot find module'')],
        RequireIndirect ?app,
        ConsoleError [CStr ''React-Hot-Loader: error detected while loading'', CVal ?app],
        ConsoleError [CVal (JError ''Cannot find module'')]]"
    "microtasks (processQueue RequireQ ?s1) = [DeepUpdate ?other, DeepUpdate ?app]"
    "settled (processQueue RequireQ ?s1) = [1, 0]"
    by (simp_all add: turn u reloadEffects_def reloadWaiting_fields(3,9) failingHost_def)
  note idle = deepUpdate_after_reload_settles [OF secondHandler_fields(1) e,
      where moduleId = "JStr ''B''", THEN conjunct2, THEN conjunct2, THEN conjunct1, rule_format,
      OF secondHandler_fields(2)]
  have m: "microtasks (updateInstances (JStr ''B'') JUndefined secondHandler) =
       [DeepUpdate ?app, DeepUpdate (JStr ''B'')]"
    "trace (updateInstances (JStr ''B'') JUndefined secondHandler) =
       [ClearExceptions, ClearExceptions, ClearExceptions, RequireIndirect ?app,
        ClearExceptions, RequireIndirect (JStr ''B'')]"
    by (simp_all add: idle secondHandler_fields reloadEffects_def devHost_def)
  have rb: "inFlight (queues (running RenderQ) RenderQ)"
    and ri: "queues (running RequireQ) RenderQ = idleQueue"
    by (simp_all add: running_def)
  note wait = deepUpdate_after_reload_settles [OF reloadWaiting_fields(1) e,
      where moduleId = ?app and t = "running RenderQ",
      THEN conjunct2, THEN conjunct2, THEN conjunct2, THEN conjunct2, THEN conjunct1, rule_format, OF rb]
  note now = deepUpdate_after_reload_settles [OF reloadWaiting_fields(1) e,
      where moduleId = ?app and t = "running RequireQ",
      THEN conjunct2, THEN conjunct2, THEN conjunct2, THEN conjunct2, THEN conjunct2, THEN conjunct1,
      rule_format, OF ri]
  have w: "pending (queues (runCallback (DeepUpdate ?app) (running RenderQ)) RenderQ) =
       [(RenderTask ?app, 0)]"
    "trace (runCallback (DeepUpdate ?app) (running RenderQ)) = []"
    by (simp_all only: wait) (simp_all add: running_def initial_fields)
  have n: "trace (runCallback (DeepUpdate ?app) (running RequireQ)) = [EnterHotUpdate]"
    by (simp only: now) (simp add: running_def initial_fields moduleRecord_def)
  have q: "quiescent (initial failingHost)"
    by (rule quiescent_initial)
  have f: "handlesFresh (initial failingHost)"
    by (rule handlesFresh_initial)
  note old = deepUpdate_after_reload_settles [OF f e, where moduleId = ?app,
      THEN conjunct2, THEN conjunct2, THEN conjunct2, THEN conjunct2, THEN conjunct2, THEN conjunct2,
      THEN conjunct1, rule_format, OF q]
  have o: "trace (drainMicrotasks (updateInstances ?app JUndefined (initial failingHost))) =
       [RequireIndirect ?app,
        ConsoleError [CStr ''React-Hot-Loader: error detected while loading'', CVal ?app],
        ConsoleError [CVal (JError ''Cannot find module'')],
        EnterHotUpdate]"
    "microtasks (updateInstances ?app JUndefined (initial failingHost)) = [DeepUpdate ?app]"
    "generation (updateInstances ?app JUndefined (initial failingHost)) = 0"
    "generation (drainMicrotasks (updateInstances ?app JUndefined (initial failingHost))) = 1"
    using old by (simp_all add: reloadEffects_def moduleRecord_def initial_fields failingHost_def devHost_def)
  from reloadWaiting_fields(1) e reloadWaiting_fields(2) s1(1-4) p secondHandler_fields(1-3) m
    secondHandler_fields(7,8) rb w ri n f q o
  show ?thesis
    by (intro conjI)
qed

section \<open>The failback timer of a registration\<close>



section \<open>Calls of hot that throw\<close>

text \<open>
  C6. \<open>hot\<close> throws exactly when it is called without a module object or with one from
  which no module id can be resolved. When it throws, no function is returned: no closure
  is created, no timer is started, no callback is registered with the host and no module
  record is created. Otherwise it returns a new function.
\<close>

theorem hot_invalid_call_throws:
  "isl (fst (hot arg s)) = invalidRegistration arg
   \<and> (invalidRegistration arg \<longrightarrow>
        closures (snd (hot arg s)) = closures s \<and> timers (snd (hot arg s)) = timers s
        \<and> acceptHandlers (snd (hot arg s)) = acceptHandlers s
        \<and> statusHandlers (snd (hot arg s)) = statusHandlers s
        \<and> hotModules (snd (hot arg s)) = hotModules s)
   \<and> (\<not> invalidRegistration arg \<longrightarrow>
        fst (hot arg s) = Inr (length (closures s))
        \<and> length (closures (snd (hot arg s))) = Suc (length (closures s)))"
proof (cases arg)
  case None
  then show ?thesis
    by (simp add: hot_def invalidRegistration_def)
next
  case (Some sourceModule)
  show ?thesis
  proof (cases "truthy (resolveModuleId sourceModule)")
    case True
    then have "\<not> invalidRegistration arg"
      by (auto simp add: Some invalidRegistration_def resolveModuleId_def truthy_js_or)
    then show ?thesis
      by (simp add: Some hot_valid [OF True])
  next
    case False
    then have "invalidRegistration arg"
      by (simp add: Some invalidRegistration_def resolveModuleId_def truthy_js_or)
    with False show ?thesis
      by (simp add: Some hot_def Let_def consoleError_def emit_def)
  qed
qed

theorem hot_invalid_call_throws_witness:
  "invalidRegistration (Some namelessModule) \<and> isl (fst (hot (Some namelessModule) (initial devHost)))
   \<and> closures (snd (hot (Some namelessModule) (initial devHost))) = []
   \<and> timers (snd (hot (Some namelessModule) (initial devHost))) = []
   \<and> invalidRegistration None \<and> isl (fst (hot None (initial devHost)))"
  using hot_invalid_call_throws [of "Some namelessModule" "initial devHost"]
    hot_invalid_call_throws [of None "initial devHost"]
  by (simp add: invalidRegistration_def namelessModule_def initial_fields)

section \<open>Unmounting an instance\<close>

text \<open>
  C7. \<open>componentWillUnmount\<close> of an instance leaves the instance collection of its module
  without that instance, all other instances kept in their order, whether or not the
  module is open; the records of other modules are not touched. When the module is open,
  exactly one message is logged, and it names the wrapped component; otherwise nothing is
  logged.
\<close>

theorem unmount_removes_instance:
  "instances (moduleRecord (componentWillUnmount cls this s) (hoc_moduleId cls)) =
     filter (\<lambda>a. a \<noteq> this) (instances (moduleRecord s (hoc_moduleId cls)))
   \<and> this \<notin> set (instances (moduleRecord (componentWillUnmount cls this s) (hoc_moduleId cls)))
   \<and> trace (componentWillUnmount cls this s) =
       trace s @
       (if isModuleOpened (hoc_source cls) s
        then [LoggerError (unmountMessage (hoc_moduleId cls) (getComponentDisplayName (hoc_wrapped cls)))]
        else [])
   \<and> sublist (getComponentDisplayName (hoc_wrapped cls))
        (unmountMessage (hoc_moduleId cls) (getComponentDisplayName (hoc_wrapped cls)))
   \<and> (\<forall>m. m \<noteq> hoc_moduleId cls \<longrightarrow>
         moduleRecord (componentWillUnmount cls this s) m = moduleRecord s m)"
proof -
  let ?m = "hoc_moduleId cls"
  let ?name = "getComponentDisplayName (hoc_wrapped cls)"
  have rec: "instances (moduleRecord (componentWillUnmount cls this s) ?m) =
      filter (\<lambda>a. a \<noteq> this) (instances (moduleRecord s ?m))"
    by (simp add: componentWillUnmount_def Let_def setInstances_def moduleRecord_def loggerError_def emit_def)
  have gone: "this \<notin> set (instances (moduleRecord (componentWillUnmount cls this s) ?m))"
    unfolding rec by simp
  have log: "trace (componentWillUnmount cls this s) =
       trace s @ (if isModuleOpened (hoc_source cls) s then [LoggerError (unmountMessage ?m ?name)] else [])"
    by (simp add: componentWillUnmount_def Let_def setInstances_def loggerError_def emit_def)
  have named: "sublist ?name (unmountMessage ?m ?name)"
    by (rule unmountMessage_names)
  have others: "moduleRecord (componentWillUnmount cls this s) m = moduleRecord s m" if "m \<noteq> ?m" for m
    using that
    by (simp add: componentWillUnmount_def Let_def setInstances_def moduleRecord_def loggerError_def emit_def)
  from rec gone log named others show ?thesis
    by blast
qed

theorem unmount_removes_instance_witness:
  "instances (moduleRecord (componentWillUnmount appHoc 0 (run mountedTwice (initial openHost)))
      (JStr ''./src/App.js'')) = [1]
   \<and> isModuleOpened appModule (run mountedTwice (initial openHost))
   \<and> trace (componentWillUnmount appHoc 0 (run mountedTwice (initial openHost))) =
       [ClearExceptions, Register appComponent ''App'' ''RHL./src/App.js'',
        LoggerError (unmountMessage (JStr ''./src/App.js'') ''App'')]
   \<and> JStr ''./src/Other.js'' \<noteq> hoc_moduleId appHoc
   \<and> moduleRecord (componentWillUnmount appHoc 0 (run mountedTwice (initial openHost)))
        (JStr ''./src/Other.js'') = \<lparr>instances = [], updateTimeout = 0\<rparr>
   \<and> \<not> isModuleOpened appModule (run mountedTwice (initial devHost))
   \<and> trace (componentWillUnmount appHoc 1 (run mountedTwice (initial devHost))) =
       [ClearExceptions, Register appComponent ''App'' ''RHL./src/App.js'']
   \<and> instances (moduleRecord (componentWillUnmount appHoc 1 (run mountedTwice (initial devHost)))
      (JStr ''./src/App.js'')) = [0]"
proof -
  let ?open = "run mountedTwice (initial openHost)"
  let ?closed = "run mountedTwice (initial devHost)"
  have cls: "hoc_moduleId appHoc = JStr ''./src/App.js''" "hoc_source appHoc = appModule"
    "getComponentDisplayName (hoc_wrapped appHoc) = ''App''"
    by (simp_all add: appHoc_def getComponentDisplayName_def appComponent_def)
  have opened: "isModuleOpened appModule ?open"
    by (simp add: isModuleOpened_def mountedTwice_fields openHost_def)
  have closed: "\<not> isModuleOpened appModule ?closed"
    by (simp add: isModuleOpened_def mountedTwice_fields devHost_def)
  have other: "JStr ''./src/Other.js'' \<noteq> hoc_moduleId appHoc"
    by (simp add: cls)
  note w1 = unmount_removes_instance [of appHoc 0 ?open, unfolded cls]
  note w2 = unmount_removes_instance [of appHoc 1 ?closed, unfolded cls]
  from w1 have "instances (moduleRecord (componentWillUnmount appHoc 0 ?open) (JStr ''./src/App.js'')) =
      filter (\<lambda>a. a \<noteq> 0) (instances (moduleRecord ?open (JStr ''./src/App.js'')))"
    by blast
  then have a: "instances (moduleRecord (componentWillUnmount appHoc 0 ?open) (JStr ''./src/App.js'')) = [1]"
    by (simp add: mountedTwice_fields)
  from w1 have "trace (componentWillUnmount appHoc 0 ?open) =
       trace ?open @
       (if isModuleOpened appModule ?open
        then [LoggerError (unmountMessage (JStr ''./src/App.js'') ''App'')] else [])"
    by blast
  with opened have b: "trace (componentWillUnmount appHoc 0 ?open) =
       [ClearExceptions, Register appComponent ''App'' ''RHL./src/App.js'',
        LoggerError (unmountMessage (JStr ''./src/App.js'') ''App'')]"
    by (simp add: mountedTwice_fields)
  have "moduleRecord (componentWillUnmount appHoc 0 ?open) (JStr ''./src/Other.js'') =
      moduleRecord ?open (JStr ''./src/Other.js'')"
    by (rule w1 [THEN conjunct2, THEN conjunct2, THEN conjunct2, THEN conjunct2, rule_format]) simp
  then have c: "moduleRecord (componentWillUnmount appHoc 0 ?open) (JStr ''./src/Other.js'') =
      \<lparr>instances = [], updateTimeout = 0\<rparr>"
    by (simp add: mountedTwice_fields)
  from w2 have "trace (componentWillUnmount appHoc 1 ?closed) =
       trace ?closed @
       (if isModuleOpened appModule ?closed
        then [LoggerError (unmountMessage (JStr ''./src/App.js'') ''App'')] else [])"
    by blast
  with closed have d: "trace (componentWillUnmount appHoc 1 ?closed) =
       [ClearExceptions, Register appComponent ''App'' ''RHL./src/App.js'']"
    by (simp add: mountedTwice_fields)
  from w2 have "instances (moduleRecord (componentWillUnmount appHoc 1 ?closed) (JStr ''./src/App.js'')) =
      filter (\<lambda>a. a \<noteq> 1) (instances (moduleRecord ?closed (JStr ''./src/App.js'')))"
    by blast
  then have e: "instances (moduleRecord (componentWillUnmount appHoc 1 ?closed) (JStr ''./src/App.js'')) = [0]"
    by (simp add: mountedTwice_fields)
  from a opened b other c closed d e show ?thesis
    by blast
qed

section \<open>The status handler\<close>

text \<open>
  C8. The function given to \<open>addStatusHandler\<close>, called with the status \<open>apply\<close>, calls
  \<open>clearExceptions\<close> and then \<open>updateInstances\<close> without an argument; called with any
  other status it does nothing. This is what the accept callback of the module does when
  it is called without a payload after the exceptions have been cleared; from a quiescent
  state with this one handler, the macrotask of the status change runs the reload and then
  the deep update. \<open>hot\<close> registers the handler when the module's hot API has
  \<open>addStatusHandler\<close> and reports the status \<open>idle\<close>.
\<close>

theorem status_apply_updates:
  "statusHandler moduleId ''apply'' s = updateInstances moduleId JUndefined (clearExceptions s)
   \<and> trace (clearExceptions s) = trace s @ [ClearExceptions]
   \<and> (status \<noteq> ''apply'' \<longrightarrow> statusHandler moduleId status s = s)
   \<and> (moduleId \<in> set (acceptHandlers s) \<longrightarrow>
        statusHandler moduleId ''apply'' s = handleEvent (Accept moduleId JUndefined) (clearExceptions s))
   \<and> (quiescent s \<and> statusHandlers s = [moduleId] \<longrightarrow>
        trace (macrotask (Status ''apply'') s) =
          trace s @ ClearExceptions # reloadEffects s moduleId @
          EnterHotUpdate # map ForceUpdate (instances (moduleRecord s moduleId))
        \<and> generation (macrotask (Status ''apply'') s) = Suc (generation s))
   \<and> (mod_hot sourceModule = Some api \<and> has_addStatusHandler api \<and> hot_status api = ''idle''
        \<and> truthy (resolveModuleId sourceModule) \<longrightarrow>
        statusHandlers (snd (hot (Some sourceModule) s)) = statusHandlers s @ [resolveModuleId sourceModule])"
proof -
  have handler: "statusHandler moduleId ''apply'' s = updateInstances moduleId JUndefined (clearExceptions s)"
    by (simp add: statusHandler_def)
  have clears: "trace (clearExceptions s) = trace s @ [ClearExceptions]"
    by (simp add: clearExceptions_frame)
  have other: "statusHandler moduleId status s = s" if "status \<noteq> ''apply''"
    using that by (simp add: statusHandler_def)
  have same: "statusHandler moduleId ''apply'' s = handleEvent (Accept moduleId JUndefined) (clearExceptions s)"
    if "moduleId \<in> set (acceptHandlers s)"
    using that by (simp add: handler clearExceptions_def emit_def)
  have cycle: "trace (macrotask (Status ''apply'') s) =
          trace s @ ClearExceptions # reloadEffects s moduleId @
          EnterHotUpdate # map ForceUpdate (instances (moduleRecord s moduleId))
        \<and> generation (macrotask (Status ''apply'') s) = Suc (generation s)"
    if q: "quiescent s" and only: "statusHandlers s = [moduleId]"
  proof -
    have q1: "quiescent (clearExceptions s)"
      using q by (simp add: quiescent_def calm_def clearExceptions_frame)
    have e: "\<not> instanceofError JUndefined"
      by simp
    have "macrotask (Status ''apply'') s =
        drainMicrotasks (updateInstances moduleId JUndefined (clearExceptions s))"
      by (simp add: macrotask_def only handler)
    then show ?thesis
      unfolding update_cycle [OF q1 e]
      by (simp add: clearExceptions_frame hotModule_frame reloadEffects_def moduleRecord_def)
  qed
  have registered: "statusHandlers (snd (hot (Some sourceModule) s)) =
      statusHandlers s @ [resolveModuleId sourceModule]"
    if "mod_hot sourceModule = Some api" "has_addStatusHandler api" "hot_status api = ''idle''"
      "truthy (resolveModuleId sourceModule)"
    using that
    by (simp add: hot_valid makeHotExport_def Let_def hotModule_frame)
  from handler clears other same cycle registered show ?thesis
    by blast
qed

theorem status_apply_updates_witness:
  "quiescent (run mountedTwice (initial devHost))
   \<and> statusHandlers (run mountedTwice (initial devHost)) = [JStr ''./src/App.js'']
   \<and> trace (macrotask (Status ''apply'') (run mountedTwice (initial devHost))) =
       [ClearExceptions, Register appComponent ''App'' ''RHL./src/App.js'', ClearExceptions,
        RequireIndirect (JStr ''./src/App.js''), EnterHotUpdate, ForceUpdate 0, ForceUpdate 1]
   \<and> generation (macrotask (Status ''apply'') (run mountedTwice (initial devHost))) = 1
   \<and> ''idle'' \<noteq> ''apply''
   \<and> statusHandler (JStr ''./src/App.js'') ''idle'' (run mountedTwice (initial devHost)) =
       run mountedTwice (initial devHost)
   \<and> JStr ''./src/App.js'' \<in> set (acceptHandlers (run mountedTwice (initial devHost)))
   \<and> statusHandler (JStr ''./src/App.js'') ''apply'' (run mountedTwice (initial devHost)) =
       handleEvent (Accept (JStr ''./src/App.js'') JUndefined)
         (clearExceptions (run mountedTwice (initial devHost)))
   \<and> mod_hot appModule = Some \<lparr>hot_status = ''idle'', has_addStatusHandler = True\<rparr>
   \<and> truthy (resolveModuleId appModule)
   \<and> statusHandlers (snd (hot (Some appModule) (initial devHost))) = [JStr ''./src/App.js'']"
proof -
  let ?s = "run mountedTwice (initial devHost)"
  let ?m = "JStr ''./src/App.js''"
  let ?api = "\<lparr>hot_status = ''idle'', has_addStatusHandler = True\<rparr>"
  have q: "quiescent ?s"
    by (rule quiescent_mountedTwice)
  have only: "statusHandlers ?s = [?m]" and reg: "?m \<in> set (acceptHandlers ?s)"
    by (simp_all add: mountedTwice_fields)
  have ne: "''idle'' \<noteq> ''apply''"
    by simp
  have api: "mod_hot appModule = Some ?api" "has_addStatusHandler ?api" "hot_status ?api = ''idle''"
    and t: "truthy (resolveModuleId appModule)" and r: "resolveModuleId appModule = ?m"
    by (simp_all add: appModule_def resolveModuleId_def js_or_def)
  note w = status_apply_updates [of ?m ?s "''idle''" appModule ?api]
  note w0 = status_apply_updates [of ?m "initial devHost" "''idle''" appModule ?api]
  from w q only have "trace (macrotask (Status ''apply'') ?s) =
          trace ?s @ ClearExceptions # reloadEffects ?s ?m @
          EnterHotUpdate # map ForceUpdate (instances (moduleRecord ?s ?m))"
      and gen: "generation (macrotask (Status ''apply'') ?s) = Suc (generation ?s)"
    by blast+
  then have a: "trace (macrotask (Status ''apply'') ?s) =
       [ClearExceptions, Register appComponent ''App'' ''RHL./src/App.js'', ClearExceptions,
        RequireIndirect ?m, EnterHotUpdate, ForceUpdate 0, ForceUpdate 1]"
    by (simp add: mountedTwice_fields reloadEffects_def devHost_def)
  from gen have b: "generation (macrotask (Status ''apply'') ?s) = 1"
    by (simp add: mountedTwice_fields)
  from w ne have c: "statusHandler ?m ''idle'' ?s = ?s"
    by blast
  from w reg have d: "statusHandler ?m ''apply'' ?s = handleEvent (Accept ?m JUndefined) (clearExceptions ?s)"
    by blast
  from w0 api t have "statusHandlers (snd (hot (Some appModule) (initial devHost))) =
      statusHandlers (initial devHost) @ [resolveModuleId appModule]"
    by blast
  then have e: "statusHandlers (snd (hot (Some appModule) (initial devHost))) = [?m]"
    by (simp add: r initial_fields)
  from q only a b ne c reg d api(1) t e show ?thesis
    by blast
qed

section \<open>A payload that is not an Error\<close>

text \<open>
  C9. A payload that is truthy but is not an \<open>Error\<close> does not take the abort branch of
  \<open>updateInstances\<close>: the call does what the call without an argument does, in every state.
  From a quiescent state that is the whole cycle: the reload task runs, then the deep
  update, and the payload itself is never logged.
\<close>

theorem nonError_payload_proceeds:
  assumes "truthy possibleError" and "\<not> instanceofError possibleError"
  shows "updateInstances moduleId possibleError s = updateInstances moduleId JUndefined s
         \<and> (quiescent s \<longrightarrow>
              trace (drainMicrotasks (updateInstances moduleId possibleError s)) =
                trace s @ reloadEffects s moduleId @
                EnterHotUpdate # map ForceUpdate (instances (moduleRecord s moduleId))
              \<and> generation (drainMicrotasks (updateInstances moduleId possibleError s)) =
                  Suc (generation s))"
proof -
  have same: "updateInstances moduleId possibleError s = updateInstances moduleId JUndefined s"
    using assms(2) by (simp add: updateInstances_def)
  have "trace (drainMicrotasks (updateInstances moduleId possibleError s)) =
          trace s @ reloadEffects s moduleId @
          EnterHotUpdate # map ForceUpdate (instances (moduleRecord s moduleId))
        \<and> generation (drainMicrotasks (updateInstances moduleId possibleError s)) = Suc (generation s)"
    if "quiescent s"
    unfolding update_cycle [OF that assms(2)] by simp
  with same show ?thesis
    by blast
qed

theorem nonError_payload_proceeds_witness:
  "truthy (JStr ''changed'') \<and> \<not> instanceofError (JStr ''changed'')
   \<and> updateInstances (JStr ''./src/App.js'') (JStr ''changed'') (initial devHost) =
       updateInstances (JStr ''./src/App.js'') JUndefined (initial devHost)
   \<and> trace (drainMicrotasks (updateInstances (JStr ''./src/App.js'') (JStr ''changed'') (initial devHost))) =
       [RequireIndirect (JStr ''./src/App.js''), EnterHotUpdate]"
proof -
  have t: "truthy (JStr ''changed'')" and e: "\<not> instanceofError (JStr ''changed'')"
    by simp_all
  note w = nonError_payload_proceeds [OF t e, of "JStr ''./src/App.js''" "initial devHost"]
  have same: "updateInstances (JStr ''./src/App.js'') (JStr ''changed'') (initial devHost) =
       updateInstances (JStr ''./src/App.js'') JUndefined (initial devHost)"
    using w by (rule conjunct1)
  have "trace (drainMicrotasks (updateInstances (JStr ''./src/App.js'') (JStr ''changed'') (initial devHost))) =
      trace (initial devHost) @ reloadEffects (initial devHost) (JStr ''./src/App.js'') @
      EnterHotUpdate # map ForceUpdate (instances (moduleRecord (initial devHost) (JStr ''./src/App.js'')))"
    using w quiescent_initial [of devHost] by blast
  then have follows: "trace (drainMicrotasks (updateInstances (JStr ''./src/App.js'') (JStr ''changed'') (initial devHost))) =
       [RequireIndirect (JStr ''./src/App.js''), EnterHotUpdate]"
    by (simp add: reloadEffects_def moduleRecord_def initial_fields devHost_def)
  from t e same follows show ?thesis
    by blast
qed

section \<open>The function that hot returns\<close>

text \<open>
  C10. Every call of the function that \<open>hot\<close> returned cancels the failback timer of its
  closure and returns the exported class, named \<open>HotExported\<close> followed by the name of the
  wrapped component. The call registers the wrapped component with the hot loader exactly
  when the flag \<open>firstHotRegistered\<close> of the closure is not yet set, and sets it; \<open>hot\<close>
  creates the closure with the flag unset; so the first call registers and no later call,
  however many follow, registers again.
\<close>

theorem wrapper_registers_once:
  assumes "w < length (closures s)"
  shows "trace (snd (exportWrapper w c ps s)) =
           trace s @
           (if firstHotRegistered (closures s ! w) then []
            else [Register c (getComponentDisplayName c) (''RHL'' @ js_toString (cl_moduleId (closures s ! w)))])
         \<and> firstHotRegistered (closures (snd (exportWrapper w c ps s)) ! w)
         \<and> timers (snd (exportWrapper w c ps s)) =
             filter (\<lambda>t. fst t \<noteq> cl_failbackTimer (closures s ! w)) (timers s)
         \<and> fst (exportWrapper w c ps s) =
             Some \<lparr>hoc_source = cl_source (closures s ! w), hoc_moduleId = cl_moduleId (closures s ! w),
                   hoc_wrapped = c, hoc_props = ps,
                   displayName = ''HotExported'' @ getComponentDisplayName c\<rparr>
         \<and> trace (invokeAll w calls (snd (exportWrapper w c ps s))) = trace (snd (exportWrapper w c ps s))
         \<and> (truthy (resolveModuleId sourceModule) \<longrightarrow>
              \<not> firstHotRegistered (closures (snd (hot (Some sourceModule) s)) ! length (closures s)))"
proof -
  let ?s1 = "snd (exportWrapper w c ps s)"
  have len: "w < length (closures ?s1)"
    using assms by (simp add: exportWrapper_def Let_def clearFailbackTimer_def clearTimeout_def
        register_def emit_def)
  have log: "trace ?s1 = trace s @
           (if firstHotRegistered (closures s ! w) then []
            else [Register c (getComponentDisplayName c) (''RHL'' @ js_toString (cl_moduleId (closures s ! w)))])"
    using exportWrapper_registered(1) [OF assms] exportWrapper_first(1) [OF assms]
    by (cases "firstHotRegistered (closures s ! w)") simp_all
  have flag: "firstHotRegistered (closures ?s1 ! w)"
    using exportWrapper_registered(2) [OF assms, of c ps] exportWrapper_first(2) [OF assms, of c ps] assms
    by (cases "firstHotRegistered (closures s ! w)") simp_all
  have cancel: "timers ?s1 = filter (\<lambda>t. fst t \<noteq> cl_failbackTimer (closures s ! w)) (timers s)"
    using assms by (simp add: exportWrapper_frame)
  have result: "fst (exportWrapper w c ps s) =
             Some \<lparr>hoc_source = cl_source (closures s ! w), hoc_moduleId = cl_moduleId (closures s ! w),
                   hoc_wrapped = c, hoc_props = ps,
                   displayName = ''HotExported'' @ getComponentDisplayName c\<rparr>"
    using assms by (simp add: exportWrapper_def Let_def createHoc_def)
  have later: "trace (invokeAll w calls ?s1) = trace ?s1"
    using len flag by (rule invokeAll_registered)
  have fresh: "\<not> firstHotRegistered (closures (snd (hot (Some sourceModule) s)) ! length (closures s))"
    if "truthy (resolveModuleId sourceModule)"
    by (simp add: hot_valid [OF that])
  from log flag cancel result later fresh show ?thesis
    by blast
qed

theorem wrapper_registers_once_witness:
  "0 < length (closures (snd (hot (Some appModule) (initial devHost))))
   \<and> truthy (resolveModuleId appModule)
   \<and> \<not> firstHotRegistered (closures (snd (hot (Some appModule) (initial devHost))) ! 0)
   \<and> trace (snd (exportWrapper 0 appComponent [] (snd (hot (Some appModule) (initial devHost))))) =
       [ClearExceptions, Register appComponent ''App'' ''RHL./src/App.js'']
   \<and> trace (invokeAll 0 [(appComponent, []), (appComponent, [])]
        (snd (exportWrapper 0 appComponent [] (snd (hot (Some appModule) (initial devHost)))))) =
       [ClearExceptions, Register appComponent ''App'' ''RHL./src/App.js'']
   \<and> timers (snd (exportWrapper 0 appComponent [] (snd (hot (Some appModule) (initial devHost))))) = []
   \<and> \<not> firstHotRegistered
        (closures (snd (hot (Some appModule) (snd (hot (Some appModule) (initial devHost))))) ! 1)"
proof -
  let ?s1 = "snd (hot (Some appModule) (initial devHost))"
  let ?s2 = "snd (exportWrapper 0 appComponent [] ?s1)"
  have t: "truthy (resolveModuleId appModule)"
    by (simp add: resolveModuleId_def js_or_def appModule_def)
  have s1: "closures ?s1 =
      [\<lparr>cl_source = appModule, cl_moduleId = JStr ''./src/App.js'', cl_failbackTimer = 0,
         firstHotRegistered = False\<rparr>]"
    "trace ?s1 = [ClearExceptions]"
    "timers ?s1 = [(0, 100, FailbackFire (JStr ''./src/App.js''))]"
    by (simp_all add: hot_valid [OF t] initial_fields makeHotExport_frame hotModule_frame)
       (simp_all add: resolveModuleId_def js_or_def appModule_def makeHotExport_def Let_def initial_fields
         hotModule_frame)
  have len: "0 < length (closures ?s1)"
    by (simp add: s1)
  note w = wrapper_registers_once
    [OF len, of appComponent "[]" "[(appComponent, []), (appComponent, [])]" appModule]
  from w have "trace ?s2 = trace ?s1 @
           (if firstHotRegistered (closures ?s1 ! 0) then []
            else [Register appComponent (getComponentDisplayName appComponent)
                    (''RHL'' @ js_toString (cl_moduleId (closures ?s1 ! 0)))])"
    by blast
  then have first: "trace ?s2 = [ClearExceptions, Register appComponent ''App'' ''RHL./src/App.js'']"
    by (simp add: s1 getComponentDisplayName_def appComponent_def)
  from w have "trace (invokeAll 0 [(appComponent, []), (appComponent, [])] ?s2) = trace ?s2"
    by blast
  with first have later:
    "trace (invokeAll 0 [(appComponent, []), (appComponent, [])] ?s2) =
       [ClearExceptions, Register appComponent ''App'' ''RHL./src/App.js'']"
    by simp
  from w have "timers ?s2 = filter (\<lambda>t. fst t \<noteq> cl_failbackTimer (closures ?s1 ! 0)) (timers ?s1)"
    by blast
  then have cancelled: "timers ?s2 = []"
    by (simp add: s1)
  from w t have "\<not> firstHotRegistered (closures (snd (hot (Some appModule) ?s1)) ! length (closures ?s1))"
    by blast
  then have fresh: "\<not> firstHotRegistered (closures (snd (hot (Some appModule) ?s1)) ! 1)"
    by (simp add: s1)
  have unset: "\<not> firstHotRegistered (closures ?s1 ! 0)"
    by (simp add: s1)
  from len t unset first later cancelled fresh show ?thesis
    by blast
qed

end
